theory Spec2Isabelle
  imports Main
begin

section \<open>Data model\<close>

text \<open>
  A board is a Go slice of strings. The three marks are the constants of \<^verbatim>\<open>main.go\<close>;
  a decoded request may hold any other string in a cell as well.
\<close>

type_synonym board = "string list"

definition PLAYER_X :: string where "PLAYER_X = ''X''"
definition AI_O :: string where "AI_O = ''O''"
definition EMPTY :: string where "EMPTY = ''''"

record GameState =
  Board :: board
  BoardSize :: int
  Winner :: string

text \<open>An index outside a slice makes the Go runtime panic.\<close>

datatype error = IndexOutOfRange

text \<open>
  Go's \<^verbatim>\<open>int\<close> is taken as the 64-bit signed integer of the 64-bit targets. Values are
  modelled as \<^typ>\<open>int\<close> and every arithmetic result of the source is brought back into
  the signed 64-bit range by \<open>wrap64\<close>, as the machine does.
\<close>

definition wrap64 :: "int \<Rightarrow> int" where
  "wrap64 x = (x + 2 ^ 63) mod 2 ^ 64 - 2 ^ 63"

text \<open>Go's integer division truncates towards zero.\<close>

definition quot :: "int \<Rightarrow> int \<Rightarrow> int" where
  "quot a b = sgn a * sgn b * (\<bar>a\<bar> div \<bar>b\<bar>)"

text \<open>\<^verbatim>\<open>board[i]\<close>: the cell, or the panic of an index out of range.\<close>

definition cellAt :: "board \<Rightarrow> int \<Rightarrow> error + string" where
  "cellAt b i = (if 0 \<le> i \<and> i < int (length b) then Inr (b ! nat i) else Inl IndexOutOfRange)"

text \<open>\<^verbatim>\<open>board[i] == p\<close>, and Go's short-circuit \<^verbatim>\<open>&&\<close> and \<^verbatim>\<open>||\<close>: the right operand
  is evaluated (and can panic) only when the left one does not decide the result.\<close>

definition cellIs :: "board \<Rightarrow> int \<Rightarrow> string \<Rightarrow> error + bool" where
  "cellIs b i p = (case cellAt b i of Inl e \<Rightarrow> Inl e | Inr v \<Rightarrow> Inr (v = p))"

definition andAlso :: "error + bool \<Rightarrow> error + bool \<Rightarrow> error + bool" where
  "andAlso x y = (case x of Inl e \<Rightarrow> Inl e | Inr l \<Rightarrow> if l then y else Inr False)"

definition orElse :: "error + bool \<Rightarrow> error + bool \<Rightarrow> error + bool" where
  "orElse x y = (case x of Inl e \<Rightarrow> Inl e | Inr l \<Rightarrow> if l then Inr True else y)"

section \<open>Win and draw detection\<close>

subsection \<open>The N x N checker of \<^verbatim>\<open>main.go\<close>\<close>

text \<open>
  One inner loop of \<^verbatim>\<open>checkWinner\<close>: \<open>match\<close> starts true and the scan of the line's
  cells breaks at the first cell that differs from the player.
\<close>

fun scanLine :: "board \<Rightarrow> string \<Rightarrow> int list \<Rightarrow> error + bool" where
  "scanLine board player [] = Inr True"
| "scanLine board player (k # ks) =
     (case cellAt board k of
        Inl e \<Rightarrow> Inl e
      | Inr v \<Rightarrow> if v \<noteq> player then Inr False else scanLine board player ks)"

text \<open>One outer loop (rows, or columns): return true at the first line that matches.\<close>

fun scanLines :: "board \<Rightarrow> string \<Rightarrow> int list list \<Rightarrow> error + bool" where
  "scanLines board player [] = Inr False"
| "scanLines board player (l # ls) =
     (case scanLine board player l of
        Inl e \<Rightarrow> Inl e
      | Inr match \<Rightarrow> if match then Inr True else scanLines board player ls)"

text \<open>The index expression \<^verbatim>\<open>r*n+c\<close>.\<close>

definition idx :: "int \<Rightarrow> int \<Rightarrow> int \<Rightarrow> int" where
  "idx n r c = wrap64 (wrap64 (r * n) + c)"

text \<open>
  \<^verbatim>\<open>checkWinner(board, player, n)\<close>: rows, columns, then the two diagonals. The loops run
  over \<open>0 \<le> r < n\<close>, so for \<open>n \<le> 0\<close> no row or column is scanned and the first diagonal
  loop leaves \<open>matchDiag1\<close> true.
\<close>

definition checkWinner :: "board \<Rightarrow> string \<Rightarrow> int \<Rightarrow> error + bool" where
  "checkWinner board player n =
     (case scanLines board player (map (\<lambda>r. map (\<lambda>c. idx n r c) [0..n - 1]) [0..n - 1]) of
        Inl e \<Rightarrow> Inl e
      | Inr rowMatch \<Rightarrow>
          if rowMatch then Inr True
          else
     (case scanLines board player (map (\<lambda>c. map (\<lambda>r. idx n r c) [0..n - 1]) [0..n - 1]) of
        Inl e \<Rightarrow> Inl e
      | Inr colMatch \<Rightarrow>
          if colMatch then Inr True
          else
     (case scanLine board player (map (\<lambda>i. idx n i i) [0..n - 1]) of
        Inl e \<Rightarrow> Inl e
      | Inr matchDiag1 \<Rightarrow>
          if matchDiag1 then Inr True
          else
     (case scanLine board player
             (map (\<lambda>i. idx n i (wrap64 (wrap64 (n - 1) - i))) [0..n - 1]) of
        Inl e \<Rightarrow> Inl e
      | Inr matchDiag2 \<Rightarrow> if matchDiag2 then Inr True else Inr False))))"

text \<open>
  \<^verbatim>\<open>isBoardFull\<close> (the same text in both source files): a range loop that returns
  false at the first empty cell and true when the loop ends.
\<close>

fun isBoardFull :: "board \<Rightarrow> bool" where
  "isBoardFull [] = True"
| "isBoardFull (c # rest) = (if c = EMPTY then False else isBoardFull rest)"

subsection \<open>The hardcoded 3 x 3 checkers\<close>

text \<open>One conjunction \<^verbatim>\<open>b[i] == p && b[j] == p && b[k] == p\<close>.\<close>

definition line3 :: "board \<Rightarrow> string \<Rightarrow> int \<Rightarrow> int \<Rightarrow> int \<Rightarrow> error + bool" where
  "line3 b p i j k = andAlso (andAlso (cellIs b i p) (cellIs b j p)) (cellIs b k p)"

text \<open>\<^verbatim>\<open>minimaxWinChecker\<close> of \<^verbatim>\<open>main.go\<close>: the disjunction of the eight triples.\<close>

definition minimaxWinChecker :: "board \<Rightarrow> string \<Rightarrow> error + bool" where
  "minimaxWinChecker b p =
     orElse (orElse (orElse (orElse (orElse (orElse (orElse
       (line3 b p 0 1 2)
       (line3 b p 3 4 5))
       (line3 b p 6 7 8))
       (line3 b p 0 3 6))
       (line3 b p 1 4 7))
       (line3 b p 2 5 8))
       (line3 b p 0 4 8))
       (line3 b p 2 4 6)"

text \<open>
  \<^verbatim>\<open>checkWinner(board, player)\<close> of the second source file: a loop over the table
  \<^verbatim>\<open>winConditions\<close>, whose rows all have three entries.
\<close>

definition winConditions :: "int list list" where
  "winConditions =
     [[0, 1, 2], [3, 4, 5], [6, 7, 8],
      [0, 3, 6], [1, 4, 7], [2, 5, 8],
      [0, 4, 8], [2, 4, 6]]"

fun checkConditions :: "board \<Rightarrow> string \<Rightarrow> int list list \<Rightarrow> error + bool" where
  "checkConditions board player [] = Inr False"
| "checkConditions board player (condition # rest) =
     (case line3 board player (condition ! 0) (condition ! 1) (condition ! 2) of
        Inl e \<Rightarrow> Inl e
      | Inr hit \<Rightarrow> if hit then Inr True else checkConditions board player rest)"

definition checkWinner_3x3 :: "board \<Rightarrow> string \<Rightarrow> error + bool" where
  "checkWinner_3x3 board player = checkConditions board player winConditions"

section \<open>The exhaustive selector for the 3 x 3 board\<close>

text \<open>
  The source starts its running maximum at \<^verbatim>\<open>-int(math.Inf(1))\<close> and its running minimum
  at \<^verbatim>\<open>int(math.Inf(1))\<close>. The Go specification leaves the conversion of a floating-point
  value that the integer type cannot represent implementation-dependent, so the value of
  \<^verbatim>\<open>int(math.Inf(1))\<close> is the parameter \<open>posInf\<close> of the model: \<open>2 ^ 63 - 1\<close> where the
  conversion saturates (arm64), \<open>- (2 ^ 63)\<close> where it yields the "integer indefinite"
  value (amd64).

  The search writes into the caller's slice and undoes each write, so the board is
  threaded through: every function returns the board as it leaves it, next to its result.
\<close>

function (domintros)
  minimax :: "int \<Rightarrow> board \<Rightarrow> int \<Rightarrow> bool \<Rightarrow> error + board \<times> int" and
  maxLoop :: "int \<Rightarrow> board \<Rightarrow> int \<Rightarrow> nat \<Rightarrow> int \<Rightarrow> error + board \<times> int" and
  minLoop :: "int \<Rightarrow> board \<Rightarrow> int \<Rightarrow> nat \<Rightarrow> int \<Rightarrow> error + board \<times> int"
where
  "minimax posInf board depth isMaximizing =
     (case minimaxWinChecker board AI_O of
        Inl e \<Rightarrow> Inl e
      | Inr won \<Rightarrow>
          if won then Inr (board, wrap64 (10 - depth))
          else
            (case minimaxWinChecker board PLAYER_X of
               Inl e \<Rightarrow> Inl e
             | Inr lost \<Rightarrow>
                 if lost then Inr (board, wrap64 (depth - 10))
                 else if isBoardFull board then Inr (board, 0)
                 else if isMaximizing then maxLoop posInf board depth 0 (wrap64 (- posInf))
                 else minLoop posInf board depth 0 posInf))"
| "maxLoop posInf board depth i best =
     (if i < 9 then
        (case cellAt board (int i) of
           Inl e \<Rightarrow> Inl e
         | Inr v \<Rightarrow>
             if v = EMPTY then
               (case minimax posInf (board[i := AI_O]) (wrap64 (depth + 1)) False of
                  Inl e \<Rightarrow> Inl e
                | Inr (board', s) \<Rightarrow>
                    maxLoop posInf (board'[i := EMPTY]) depth (Suc i) (max best s))
             else maxLoop posInf board depth (Suc i) best)
      else Inr (board, best))"
| "minLoop posInf board depth i best =
     (if i < 9 then
        (case cellAt board (int i) of
           Inl e \<Rightarrow> Inl e
         | Inr v \<Rightarrow>
             if v = EMPTY then
               (case minimax posInf (board[i := PLAYER_X]) (wrap64 (depth + 1)) True of
                  Inl e \<Rightarrow> Inl e
                | Inr (board', s) \<Rightarrow>
                    minLoop posInf (board'[i := EMPTY]) depth (Suc i) (min best s))
             else minLoop posInf board depth (Suc i) best)
      else Inr (board, best))"
  by pat_completeness auto

text \<open>
  The loop continues on the board that the recursive call hands back, so termination
  needs the frame property first, for the arguments on which the functions are known to
  return: a call hands back the board it was given.
\<close>

lemma cellAt_nat:
  "cellAt b (int i) = (if i < length b then Inr (b ! i) else Inl IndexOutOfRange)"
  by (simp add: cellAt_def)

lemma cellAt_Inr_nat: "cellAt b (int i) = Inr v \<Longrightarrow> i < length b \<and> b ! i = v"
  by (simp add: cellAt_nat split: if_splits)

lemma update_same: "b ! i = v \<Longrightarrow> b[i := v] = b"
  using list_update_id [of b i] by simp

lemma minimax_frame_dom:
  "minimax_maxLoop_minLoop_dom (Inl (posInf, board, depth, isMaximizing)) \<Longrightarrow>
     minimax posInf board depth isMaximizing = Inr (b', s) \<Longrightarrow> b' = board"
  "minimax_maxLoop_minLoop_dom (Inr (Inl (posInf, board, depth, i, best))) \<Longrightarrow>
     maxLoop posInf board depth i best = Inr (b', s) \<Longrightarrow> b' = board"
  "minimax_maxLoop_minLoop_dom (Inr (Inr (posInf, board, depth, i, best))) \<Longrightarrow>
     minLoop posInf board depth i best = Inr (b', s) \<Longrightarrow> b' = board"
proof (induction arbitrary: b' s and b' s and b' s rule: minimax_maxLoop_minLoop.pinduct)
  case (1 posInf board depth isMaximizing)
  from "1.prems" "1.hyps" "1.IH" show ?case
    by (auto simp: minimax.psimps split: sum.splits if_splits)
next
  case (2 posInf board depth i best)
  show ?case
  proof (cases "i < 9")
    case False
    with "2.prems" "2.hyps" show ?thesis by (simp add: maxLoop.psimps)
  next
    case True
    from "2.prems" "2.hyps" True obtain v where v: "cellAt board (int i) = Inr v"
      by (auto simp: maxLoop.psimps split: sum.splits)
    then have i: "i < length board" "board ! i = v" using cellAt_Inr_nat by blast+
    show ?thesis
    proof (cases "v = EMPTY")
      case False
      with "2.prems" "2.hyps" True v have "maxLoop posInf board depth (Suc i) best = Inr (b', s)"
        by (simp add: maxLoop.psimps)
      with "2.IH"(3) [OF True v False] show ?thesis .
    next
      case e: True
      from "2.prems" "2.hyps" True v e obtain x y where
        r: "minimax posInf (board[i := AI_O]) (wrap64 (depth + 1)) False = Inr (x, y)" and
        l: "maxLoop posInf (x[i := EMPTY]) depth (Suc i) (max best y) = Inr (b', s)"
        by (auto simp: maxLoop.psimps split: sum.splits)
      from "2.IH"(1) [OF True v e r] have x: "x = board[i := AI_O]" .
      from "2.IH"(2) [OF True v e r refl l] have "b' = x[i := EMPTY]" .
      with x i e show ?thesis by (simp add: update_same)
    qed
  qed
next
  case (3 posInf board depth i best)
  show ?case
  proof (cases "i < 9")
    case False
    with "3.prems" "3.hyps" show ?thesis by (simp add: minLoop.psimps)
  next
    case True
    from "3.prems" "3.hyps" True obtain v where v: "cellAt board (int i) = Inr v"
      by (auto simp: minLoop.psimps split: sum.splits)
    then have i: "i < length board" "board ! i = v" using cellAt_Inr_nat by blast+
    show ?thesis
    proof (cases "v = EMPTY")
      case False
      with "3.prems" "3.hyps" True v have "minLoop posInf board depth (Suc i) best = Inr (b', s)"
        by (simp add: minLoop.psimps)
      with "3.IH"(3) [OF True v False] show ?thesis .
    next
      case e: True
      from "3.prems" "3.hyps" True v e obtain x y where
        r: "minimax posInf (board[i := PLAYER_X]) (wrap64 (depth + 1)) True = Inr (x, y)" and
        l: "minLoop posInf (x[i := EMPTY]) depth (Suc i) (min best y) = Inr (b', s)"
        by (auto simp: minLoop.psimps split: sum.splits)
      from "3.IH"(1) [OF True v e r] have x: "x = board[i := PLAYER_X]" .
      from "3.IH"(2) [OF True v e r refl l] have "b' = x[i := EMPTY]" .
      with x i e show ?thesis by (simp add: update_same)
    qed
  qed
qed

lemma count_list_update:
  "i < length b \<Longrightarrow> b ! i = v \<Longrightarrow> w \<noteq> v \<Longrightarrow> Suc (count_list (b[i := w]) v) = count_list b v"
proof (induction b arbitrary: i)
  case Nil
  then show ?case by simp
next
  case (Cons a b)
  then show ?case by (cases i) auto
qed

text \<open>
  Every recursive call works on a board with one empty cell fewer; inside one call the
  loop counter rises to 9.
\<close>

termination minimax
proof (relation "measures
    [\<lambda>x. case x of Inl (_, b, _, _) \<Rightarrow> count_list b EMPTY
        | Inr (Inl (_, b, _, _, _)) \<Rightarrow> count_list b EMPTY
        | Inr (Inr (_, b, _, _, _)) \<Rightarrow> count_list b EMPTY,
     \<lambda>x. case x of Inl _ \<Rightarrow> 10
        | Inr (Inl (_, _, _, i, _)) \<Rightarrow> 9 - i
        | Inr (Inr (_, _, _, i, _)) \<Rightarrow> 9 - i]", goal_cases)
  case 1
  then show ?case by simp
next
  case (2 posInf board depth isMaximizing x2 x2a)
  then show ?case by simp
next
  case (3 posInf board depth isMaximizing x2 x2a)
  then show ?case by simp
next
  case (4 posInf board depth i best x2)
  then show ?case
    using count_list_update [of i board EMPTY AI_O]
    by (auto simp: AI_O_def EMPTY_def dest!: cellAt_Inr_nat)
next
  case (5 posInf board depth i best x2 x2a x y)
  then have "x = board[i := AI_O]" using minimax_frame_dom(1) by metis
  with 5 show ?case by (auto simp: update_same dest!: cellAt_Inr_nat)
next
  case (6 posInf board depth i best x2)
  then show ?case by auto
next
  case (7 posInf board depth i best x2)
  then show ?case
    using count_list_update [of i board EMPTY PLAYER_X]
    by (auto simp: PLAYER_X_def EMPTY_def dest!: cellAt_Inr_nat)
next
  case (8 posInf board depth i best x2 x2a x y)
  then have "x = board[i := PLAYER_X]" using minimax_frame_dom(1) by metis
  with 8 show ?case by (auto simp: update_same dest!: cellAt_Inr_nat)
next
  case (9 posInf board depth i best x2)
  then show ?case by auto
qed

declare minimax.simps [simp del] maxLoop.simps [simp del] minLoop.simps [simp del]

text \<open>
  The loop of \<^verbatim>\<open>findBestMoveMinimax\<close>, from index \<open>i\<close> on, with the running \<open>bestVal\<close> and
  \<open>bestMove\<close>; a move replaces the best one only when its value is strictly greater.
\<close>

function rootLoop :: "int \<Rightarrow> board \<Rightarrow> nat \<Rightarrow> int \<Rightarrow> int \<Rightarrow> error + board \<times> int" where
  "rootLoop posInf board i bestVal bestMove =
     (if i < 9 then
        (case cellAt board (int i) of
           Inl e \<Rightarrow> Inl e
         | Inr v \<Rightarrow>
             if v = EMPTY then
               (case minimax posInf (board[i := AI_O]) 0 False of
                  Inl e \<Rightarrow> Inl e
                | Inr (board', moveVal) \<Rightarrow>
                    if moveVal > bestVal
                    then rootLoop posInf (board'[i := EMPTY]) (Suc i) moveVal (int i)
                    else rootLoop posInf (board'[i := EMPTY]) (Suc i) bestVal bestMove)
             else rootLoop posInf board (Suc i) bestVal bestMove)
      else Inr (board, bestMove))"
  by pat_completeness auto
termination
  by (relation "measure (\<lambda>(posInf, board, i, bestVal, bestMove). 9 - i)") auto

declare rootLoop.simps [simp del]

definition findBestMoveMinimax :: "int \<Rightarrow> board \<Rightarrow> error + board \<times> int" where
  "findBestMoveMinimax posInf board = rootLoop posInf board 0 (wrap64 (- posInf)) (- 1)"

section \<open>The heuristic selector for the other board sizes\<close>

text \<open>\<^verbatim>\<open>getEmptySpots\<close>: the indices of the empty cells, in scan order.\<close>

definition getEmptySpots :: "board \<Rightarrow> int list" where
  "getEmptySpots board = map int (filter (\<lambda>i. board ! i = EMPTY) [0..<length board])"

text \<open>
  The first two loops of \<^verbatim>\<open>findBestMoveHeuristic\<close>: for each empty spot, copy the board,
  place the mark on the copy and return the spot if the mark has won there.
\<close>

fun tryMoves :: "board \<Rightarrow> string \<Rightarrow> int \<Rightarrow> int list \<Rightarrow> error + int option" where
  "tryMoves board mark n [] = Inr None"
| "tryMoves board mark n (move # rest) =
     (case checkWinner (board[nat move := mark]) mark n of
        Inl e \<Rightarrow> Inl e
      | Inr won \<Rightarrow> if won then Inr (Some move) else tryMoves board mark n rest)"

text \<open>The loop over the shuffled corners: the first one that is empty.\<close>

fun firstEmpty :: "board \<Rightarrow> int list \<Rightarrow> error + int option" where
  "firstEmpty board [] = Inr None"
| "firstEmpty board (corner # rest) =
     (case cellAt board corner of
        Inl e \<Rightarrow> Inl e
      | Inr v \<Rightarrow> if v = EMPTY then Inr (Some corner) else firstEmpty board rest)"

text \<open>
  The two calls of the random source are parameters: \<open>shuffle\<close> is the order in which
  \<^verbatim>\<open>rand.Shuffle\<close> leaves the corners, \<open>intn\<close> is \<^verbatim>\<open>rand.Intn\<close>.

  Stages 3 to 5 of \<^verbatim>\<open>findBestMoveHeuristic\<close>: the centre, the shuffled corners, a random
  empty spot.
\<close>

definition centerCornerRandom ::
  "(int list \<Rightarrow> int list) \<Rightarrow> (int \<Rightarrow> int) \<Rightarrow> board \<Rightarrow> int \<Rightarrow> int list \<Rightarrow> error + int" where
  "centerCornerRandom shuffle intn board n emptySpots =
     (let centerIdx = quot (wrap64 (n * n)) 2 in
      case cellAt board centerIdx of
        Inl e \<Rightarrow> Inl e
      | Inr v \<Rightarrow>
          if v = EMPTY then Inr centerIdx
          else
            (let corners =
                   shuffle [0, wrap64 (n - 1), wrap64 (n * wrap64 (n - 1)),
                            wrap64 (wrap64 (n * n) - 1)]
             in case firstEmpty board corners of
                  Inl e \<Rightarrow> Inl e
                | Inr (Some corner) \<Rightarrow> Inr corner
                | Inr None \<Rightarrow>
                    (let k = intn (int (length emptySpots))
                     in if 0 \<le> k \<and> k < int (length emptySpots)
                        then Inr (emptySpots ! nat k)
                        else Inl IndexOutOfRange)))"

text \<open>
  \<^verbatim>\<open>findBestMoveHeuristic\<close>: the sentinel on a board without empty spots, else stage 1
  (a winning move of the AI), stage 2 (a winning move of the human, to block), and the
  later stages.
\<close>

definition findBestMoveHeuristic ::
  "(int list \<Rightarrow> int list) \<Rightarrow> (int \<Rightarrow> int) \<Rightarrow> board \<Rightarrow> int \<Rightarrow> error + int" where
  "findBestMoveHeuristic shuffle intn board n =
     (let emptySpots = getEmptySpots board in
      if length emptySpots = 0 then Inr (- 1)
      else
        (case tryMoves board AI_O n emptySpots of
           Inl e \<Rightarrow> Inl e
         | Inr (Some move) \<Rightarrow> Inr move
         | Inr None \<Rightarrow>
        (case tryMoves board PLAYER_X n emptySpots of
           Inl e \<Rightarrow> Inl e
         | Inr (Some move) \<Rightarrow> Inr move
         | Inr None \<Rightarrow> centerCornerRandom shuffle intn board n emptySpots)))"

section \<open>The move and the request handler\<close>

text \<open>
  \<^verbatim>\<open>aiMove\<close>: the exhaustive selector for board size 3, the heuristic one otherwise; the
  mark is written only if the move is not the sentinel and the cell is empty.
\<close>

definition aiMove ::
  "(int list \<Rightarrow> int list) \<Rightarrow> (int \<Rightarrow> int) \<Rightarrow> int \<Rightarrow> GameState \<Rightarrow> error + GameState" where
  "aiMove shuffle intn posInf state =
     (case (if BoardSize state = 3 then findBestMoveMinimax posInf (Board state)
            else (case findBestMoveHeuristic shuffle intn (Board state) (BoardSize state) of
                    Inl e \<Rightarrow> Inl e
                  | Inr move \<Rightarrow> Inr (Board state, move))) of
        Inl e \<Rightarrow> Inl e
      | Inr (board', bestMove) \<Rightarrow>
          if bestMove \<noteq> - 1 then
            (case cellAt board' bestMove of
               Inl e \<Rightarrow> Inl e
             | Inr v \<Rightarrow>
                 if v = EMPTY then Inr (state\<lparr>Board := board'[nat bestMove := AI_O]\<rparr>)
                 else Inr (state\<lparr>Board := board'\<rparr>))
          else Inr (state\<lparr>Board := board'\<rparr>))"

text \<open>
  \<^verbatim>\<open>playHandler\<close>. The request is its method and the decoded body (\<open>None\<close> when the JSON
  does not decode); the response is a status without a body or the encoded state. A panic
  of the game logic leaves the handler without a response.
\<close>

datatype httpMethod = OPTIONS | POST | OtherMethod

datatype response =
    StatusOK
  | StatusMethodNotAllowed
  | StatusBadRequest
  | Encoded GameState

definition playHandler ::
  "(int list \<Rightarrow> int list) \<Rightarrow> (int \<Rightarrow> int) \<Rightarrow> int \<Rightarrow> httpMethod \<Rightarrow> GameState option \<Rightarrow>
     error + response" where
  "playHandler shuffle intn posInf method body =
     (if method = OPTIONS then Inr StatusOK
      else if method \<noteq> POST then Inr StatusMethodNotAllowed
      else
        (case body of
           None \<Rightarrow> Inr StatusBadRequest
         | Some currentState \<Rightarrow>
             if BoardSize currentState = 0 \<or>
                int (length (Board currentState)) \<noteq>
                  wrap64 (BoardSize currentState * BoardSize currentState)
             then Inr StatusBadRequest
             else
               (case checkWinner (Board currentState) PLAYER_X (BoardSize currentState) of
                  Inl e \<Rightarrow> Inl e
                | Inr playerWon \<Rightarrow>
                    if playerWon then Inr (Encoded (currentState\<lparr>Winner := PLAYER_X\<rparr>))
                    else if isBoardFull (Board currentState)
                    then Inr (Encoded (currentState\<lparr>Winner := ''draw''\<rparr>))
                    else
                      (case aiMove shuffle intn posInf currentState of
                         Inl e \<Rightarrow> Inl e
                       | Inr moved \<Rightarrow>
                           (case checkWinner (Board moved) AI_O (BoardSize moved) of
                              Inl e \<Rightarrow> Inl e
                            | Inr aiWon \<Rightarrow>
                                if aiWon then Inr (Encoded (moved\<lparr>Winner := AI_O\<rparr>))
                                else if isBoardFull (Board moved)
                                then Inr (Encoded (moved\<lparr>Winner := ''draw''\<rparr>))
                                else Inr (Encoded moved))))))"

section \<open>Notions used in the statements and proofs\<close>

text \<open>
  None of the following is code of the repository: these are the predicates and values
  in which the properties of the code are stated and proved.
\<close>

subsection \<open>Lines\<close>

text \<open>The eight lines of the 3 x 3 board, as a predicate on a board of nine cells.\<close>

definition wins3 :: "board \<Rightarrow> string \<Rightarrow> bool" where
  "wins3 b p \<longleftrightarrow>
     (b ! 0 = p \<and> b ! 1 = p \<and> b ! 2 = p) \<or>
     (b ! 3 = p \<and> b ! 4 = p \<and> b ! 5 = p) \<or>
     (b ! 6 = p \<and> b ! 7 = p \<and> b ! 8 = p) \<or>
     (b ! 0 = p \<and> b ! 3 = p \<and> b ! 6 = p) \<or>
     (b ! 1 = p \<and> b ! 4 = p \<and> b ! 7 = p) \<or>
     (b ! 2 = p \<and> b ! 5 = p \<and> b ! 8 = p) \<or>
     (b ! 0 = p \<and> b ! 4 = p \<and> b ! 8 = p) \<or>
     (b ! 2 = p \<and> b ! 4 = p \<and> b ! 6 = p)"

text \<open>
  On an N x N board: some full row, some full column or one of the two full diagonals
  holds the mark alone.
\<close>

definition hasWon :: "board \<Rightarrow> string \<Rightarrow> int \<Rightarrow> bool" where
  "hasWon b p n \<longleftrightarrow>
     (\<exists>r\<in>{0..n - 1}. \<forall>c\<in>{0..n - 1}. b ! nat (r * n + c) = p) \<or>
     (\<exists>c\<in>{0..n - 1}. \<forall>r\<in>{0..n - 1}. b ! nat (r * n + c) = p) \<or>
     (\<forall>i\<in>{0..n - 1}. b ! nat (i * n + i) = p) \<or>
     (\<forall>i\<in>{0..n - 1}. b ! nat (i * n + (n - 1 - i)) = p)"

subsection \<open>Scores\<close>

text \<open>
  The score that \<^verbatim>\<open>minimax\<close> returns (0 stands in where it panics, which it does not on a
  board of nine cells), the empty cells among the first nine, and the value that the loop
  of \<^verbatim>\<open>findBestMoveMinimax\<close> computes for the move to cell \<open>j\<close>.
\<close>

definition score :: "int \<Rightarrow> board \<Rightarrow> int \<Rightarrow> bool \<Rightarrow> int" where
  "score posInf b depth isMaximizing =
     (case minimax posInf b depth isMaximizing of Inr (_, s) \<Rightarrow> s | Inl _ \<Rightarrow> 0)"

definition empties :: "board \<Rightarrow> nat set" where
  "empties b = {j. j < 9 \<and> b ! j = EMPTY}"

definition moveVal :: "int \<Rightarrow> board \<Rightarrow> nat \<Rightarrow> int" where
  "moveVal posInf b j = score posInf (b[j := AI_O]) 0 False"

text \<open>
  One step of the loop of \<^verbatim>\<open>findBestMoveMinimax\<close> on the pair of \<open>bestVal\<close> and
  \<open>bestMove\<close>, for a move to cell \<open>j\<close> of value \<open>f j\<close>.
\<close>

definition better :: "(nat \<Rightarrow> int) \<Rightarrow> nat \<Rightarrow> int \<times> int \<Rightarrow> int \<times> int" where
  "better f j best = (if f j > fst best then (f j, int j) else best)"

subsection \<open>Games\<close>

text \<open>
  The requests of a game that starts with the request \<open>st0\<close>: the handler answers a
  request, and while the answer carries no winner the human marks any empty cell of the
  answer's board and sends the result as the next request.
\<close>

inductive requests ::
  "(int list \<Rightarrow> int list) \<Rightarrow> (int \<Rightarrow> int) \<Rightarrow> int \<Rightarrow> GameState \<Rightarrow> GameState \<Rightarrow> bool"
  for shuffle intn posInf st0 where
  start: "requests shuffle intn posInf st0 st0"
| reply: "requests shuffle intn posInf st0 st \<Longrightarrow>
          playHandler shuffle intn posInf POST (Some st) = Inr (Encoded st') \<Longrightarrow>
          Winner st' = '''' \<Longrightarrow>
          cellAt (Board st') i = Inr EMPTY \<Longrightarrow>
          requests shuffle intn posInf st0 (st'\<lparr>Board := (Board st')[nat i := PLAYER_X]\<rparr>)"

text \<open>
  A request of a 3 x 3 game in which the AI is not lost: the AI has no line yet and the
  search gives the position, with the AI to move, a score that is not negative.
\<close>

definition unlost :: "int \<Rightarrow> GameState \<Rightarrow> bool" where
  "unlost posInf st \<longleftrightarrow>
     BoardSize st = 3 \<and> length (Board st) = 9 \<and> Winner st = '''' \<and>
     \<not> wins3 (Board st) AI_O \<and> 0 \<le> score posInf (Board st) 0 True"

subsection \<open>Boards of the scenarios\<close>

text \<open>
  The board of the scenario of the specification, with the human on cells 0 and 1; a
  board on which the human has two open lines; and two 4 x 4 boards, one with a winning
  move for the AI at cell 3, one with a winning move for the human at cell 7.
\<close>

definition rowBoard :: board where
  "rowBoard = [''X'', ''X'', '''', '''', '''', '''', '''', '''', '''']"

definition forkBoard :: board where
  "forkBoard = [''X'', ''X'', '''', ''X'', '''', '''', '''', '''', '''']"

definition winBoard :: board where
  "winBoard = [''O'', ''O'', ''O'', '''',
               ''X'', ''X'', '''', '''',
               '''', '''', ''X'', '''',
               '''', '''', '''', '''']"

definition blockBoard :: board where
  "blockBoard = [''O'', '''', '''', '''',
                 ''X'', ''X'', ''X'', '''',
                 '''', '''', '''', '''',
                 '''', '''', '''', ''O'']"

section \<open>Properties\<close>

subsection \<open>Draw detection\<close>

lemma isBoardFull_iff: "isBoardFull b \<longleftrightarrow> EMPTY \<notin> set b"
  by (induction b) auto

lemma count_list_zero_iff: "count_list xs x = 0 \<longleftrightarrow> x \<notin> set xs"
  by (induction xs) auto

text \<open>
  Claim C7, as the code has it: on a board of any length \<^verbatim>\<open>isBoardFull\<close> returns true
  exactly when the number of cells equal to the empty string is zero. On the board of
  length zero the loop body never runs, so the function returns true there.
\<close>

theorem C7_isBoardFull_counts:
  "(isBoardFull b \<longleftrightarrow> count_list b EMPTY = 0) \<and> isBoardFull [] = True"
  by (simp add: isBoardFull_iff count_list_zero_iff)

theorem C7_isBoardFull_counts_witness:
  "isBoardFull [''X''] \<and> count_list [''X''] EMPTY = 0 \<and> \<not> isBoardFull [''''] \<and>
   count_list [''''] EMPTY = 1"
  using C7_isBoardFull_counts [of "[''X'']"] C7_isBoardFull_counts [of "['''']"]
  by (simp add: EMPTY_def)

text \<open>
  The claim's last clause, that the zero-length board is reported as not full, fails.
\<close>

theorem C7_empty_board_counterexample: "\<not> (isBoardFull [] = False)"
  by simp

subsection \<open>The three win checkers on a board of nine cells\<close>

lemma andAlso_Inr: "andAlso (Inr x) (Inr y) = Inr (x \<and> y)"
  by (simp add: andAlso_def)

lemma orElse_Inr: "orElse (Inr x) (Inr y) = Inr (x \<or> y)"
  by (simp add: orElse_def)

lemma cellIs_numeral:
  "9 \<le> length b \<Longrightarrow> 0 \<le> i \<Longrightarrow> i < 9 \<Longrightarrow> cellIs b i p = Inr (b ! nat i = p)"
  by (simp add: cellIs_def cellAt_def)

lemma line3_in_range:
  "9 \<le> length b \<Longrightarrow> 0 \<le> i \<Longrightarrow> i < 9 \<Longrightarrow> 0 \<le> j \<Longrightarrow> j < 9 \<Longrightarrow> 0 \<le> k \<Longrightarrow> k < 9 \<Longrightarrow>
   line3 b p i j k = Inr (b ! nat i = p \<and> b ! nat j = p \<and> b ! nat k = p)"
  by (simp add: line3_def cellIs_numeral andAlso_Inr)

lemma minimaxWinChecker_wins3:
  "9 \<le> length b \<Longrightarrow> minimaxWinChecker b p = Inr (wins3 b p)"
  by (simp add: minimaxWinChecker_def line3_in_range orElse_Inr wins3_def)

lemma checkWinner_3x3_wins3:
  "9 \<le> length b \<Longrightarrow> checkWinner_3x3 b p = Inr (wins3 b p)"
  by (auto simp: checkWinner_3x3_def winConditions_def line3_in_range wins3_def)

lemma upto3: "[0..(2::int)] = [0, 1, 2]"
  by code_simp

lemma idx3: "idx 3 0 0 = 0" "idx 3 0 1 = 1" "idx 3 0 2 = 2" "idx 3 1 0 = 3" "idx 3 1 1 = 4" "idx 3 1 2 = 5"
  "idx 3 2 0 = 6" "idx 3 2 1 = 7" "idx 3 2 2 = 8"
  by (simp_all add: idx_def wrap64_def)

lemma scanLine_in_range:
  "\<forall>k\<in>set ks. 0 \<le> k \<and> k < int (length b) \<Longrightarrow>
   scanLine b p ks = Inr (\<forall>k\<in>set ks. b ! nat k = p)"
  by (induction ks) (auto simp: cellAt_def)

lemma scanLines_in_range:
  "\<forall>l\<in>set ls. \<forall>k\<in>set l. 0 \<le> k \<and> k < int (length b) \<Longrightarrow>
   scanLines b p ls = Inr (\<exists>l\<in>set ls. \<forall>k\<in>set l. b ! nat k = p)"
  by (induction ls) (auto simp: scanLine_in_range)

lemma rows3:
  assumes "9 \<le> length b"
  shows "scanLines b p (map (\<lambda>r. map (\<lambda>c. idx 3 r c) [0..2]) [0..2]) =
     Inr ((b ! 0 = p \<and> b ! 1 = p \<and> b ! 2 = p) \<or>
          (b ! 3 = p \<and> b ! 4 = p \<and> b ! 5 = p) \<or>
          (b ! 6 = p \<and> b ! 7 = p \<and> b ! 8 = p))"
proof -
  have l: "map (\<lambda>r. map (\<lambda>c. idx 3 r c) [0..2]) [0..2] = [[0, 1, 2], [3, 4, 5], [6, 7, 8]]"
    by (simp add: upto3 idx3)
  have "\<forall>l\<in>set [[0, 1, 2], [3, 4, 5], [6, 7, 8]]. \<forall>k\<in>set l. 0 \<le> k \<and> k < int (length b)"
    using assms by auto
  from scanLines_in_range [OF this, of p] show ?thesis
    unfolding l by simp
qed

lemma cols3:
  assumes "9 \<le> length b"
  shows "scanLines b p (map (\<lambda>c. map (\<lambda>r. idx 3 r c) [0..2]) [0..2]) =
     Inr ((b ! 0 = p \<and> b ! 3 = p \<and> b ! 6 = p) \<or>
          (b ! 1 = p \<and> b ! 4 = p \<and> b ! 7 = p) \<or>
          (b ! 2 = p \<and> b ! 5 = p \<and> b ! 8 = p))"
proof -
  have l: "map (\<lambda>c. map (\<lambda>r. idx 3 r c) [0..2]) [0..2] = [[0, 3, 6], [1, 4, 7], [2, 5, 8]]"
    by (simp add: upto3 idx3)
  have "\<forall>l\<in>set [[0, 3, 6], [1, 4, 7], [2, 5, 8]]. \<forall>k\<in>set l. 0 \<le> k \<and> k < int (length b)"
    using assms by auto
  from scanLines_in_range [OF this, of p] show ?thesis
    unfolding l by simp
qed

lemma diag3:
  assumes "9 \<le> length b"
  shows "scanLine b p (map (\<lambda>i. idx 3 i i) [0..2]) = Inr (b ! 0 = p \<and> b ! 4 = p \<and> b ! 8 = p)"
proof -
  have l: "map (\<lambda>i. idx 3 i i) [0..2] = [0, 4, 8]"
    by (simp add: upto3 idx3)
  have "\<forall>k\<in>set [0, 4, 8]. 0 \<le> k \<and> k < int (length b)"
    using assms by auto
  from scanLine_in_range [OF this, of p] show ?thesis
    unfolding l by simp
qed

lemma anti3:
  assumes "9 \<le> length b"
  shows "scanLine b p (map (\<lambda>i. idx 3 i (wrap64 (wrap64 2 - i))) [0..2]) =
     Inr (b ! 2 = p \<and> b ! 4 = p \<and> b ! 6 = p)"
proof -
  have w: "wrap64 2 = 2" "wrap64 1 = 1" "wrap64 0 = 0"
    by (simp_all add: wrap64_def)
  have l: "map (\<lambda>i. idx 3 i (wrap64 (wrap64 2 - i))) [0..2] = [2, 4, 6]"
    by (simp add: upto3 idx3 w)
  have "\<forall>k\<in>set [2, 4, 6]. 0 \<le> k \<and> k < int (length b)"
    using assms by auto
  from scanLine_in_range [OF this, of p] show ?thesis
    unfolding l by simp
qed

lemma checkWinner_wins3:
  "9 \<le> length b \<Longrightarrow> checkWinner b p 3 = Inr (wins3 b p)"
  by (auto simp: checkWinner_def rows3 cols3 diag3 anti3 wins3_def)

text \<open>
  Claim C6: on every board of exactly nine cells and for every mark, the hardcoded
  checker of the exhaustive search, the N-scan checker at \<open>n = 3\<close> and the table-driven
  checker of the second source file return the same result (and none of them panics).
\<close>

theorem C6_checkers_agree:
  "length b = 9 \<Longrightarrow>
     minimaxWinChecker b p = checkWinner b p 3 \<and>
     checkWinner b p 3 = checkWinner_3x3 b p \<and>
     (\<exists>r. minimaxWinChecker b p = Inr r)"
  by (simp add: minimaxWinChecker_wins3 checkWinner_wins3 checkWinner_3x3_wins3)

theorem C6_checkers_agree_witness:
  "minimaxWinChecker [''X'', ''O'', ''X'', ''O'', ''X'', '''', ''X'', '''', ''O''] ''X'' = Inr True \<and>
   checkWinner [''X'', ''O'', ''X'', ''O'', ''X'', '''', ''X'', '''', ''O''] ''X'' 3 = Inr True \<and>
   checkWinner_3x3 [''X'', ''O'', ''X'', ''O'', ''X'', '''', ''X'', '''', ''O''] ''X'' = Inr True"
  using C6_checkers_agree [of "[''X'', ''O'', ''X'', ''O'', ''X'', '''', ''X'', '''', ''O'']" "''X''"]
  by (simp add: minimaxWinChecker_wins3 wins3_def)

subsection \<open>The exhaustive search returns and leaves the board as it found it\<close>

lemma minimax_all_dom:
  "minimax_maxLoop_minLoop_dom (Inl (posInf, board, depth, isMaximizing))"
  "minimax_maxLoop_minLoop_dom (Inr (Inl (posInf, board, depth, i, best)))"
  "minimax_maxLoop_minLoop_dom (Inr (Inr (posInf, board, depth, i, best)))"
proof (induction posInf board depth isMaximizing and posInf board depth i best and
    posInf board depth i best rule: minimax_maxLoop_minLoop.induct)
  case (1 posInf board depth isMaximizing)
  then show ?case by (auto intro: minimax_maxLoop_minLoop.domintros)
next
  case (2 posInf board depth i best)
  then show ?case by (auto intro: minimax_maxLoop_minLoop.domintros)
next
  case (3 posInf board depth i best)
  then show ?case by (auto intro: minimax_maxLoop_minLoop.domintros)
qed

lemmas minimax_frame =
  minimax_frame_dom(1) [OF minimax_all_dom(1)]
  minimax_frame_dom(2) [OF minimax_all_dom(2)]
  minimax_frame_dom(3) [OF minimax_all_dom(3)]

lemma minimax_returns:
  "9 \<le> length board \<Longrightarrow> \<exists>s. minimax posInf board depth isMaximizing = Inr (board, s)"
  "9 \<le> length board \<Longrightarrow> \<exists>s. maxLoop posInf board depth i best = Inr (board, s)"
  "9 \<le> length board \<Longrightarrow> \<exists>s. minLoop posInf board depth i best = Inr (board, s)"
proof (induction posInf board depth isMaximizing and posInf board depth i best and
    posInf board depth i best rule: minimax_maxLoop_minLoop.induct)
  case (1 posInf board depth isMaximizing)
  note len = "1.prems"
  have w: "minimaxWinChecker board AI_O = Inr (wins3 board AI_O)"
    "minimaxWinChecker board PLAYER_X = Inr (wins3 board PLAYER_X)"
    using len by (simp_all add: minimaxWinChecker_wins3)
  show ?case
    using "1.IH"(1) [OF w(1) _ w(2)] "1.IH"(2) [OF w(1) _ w(2)] len
    by (simp add: minimax.simps [of posInf board] w)
next
  case (2 posInf board depth i best)
  note len = "2.prems"
  show ?case
  proof (cases "i < 9")
    case False
    then show ?thesis by (simp add: maxLoop.simps [of posInf board])
  next
    case True
    then have v: "cellAt board (int i) = Inr (board ! i)"
      using len by (simp add: cellAt_nat)
    show ?thesis
    proof (cases "board ! i = EMPTY")
      case False
      with "2.IH"(3) [OF True v False len] True v show ?thesis
        by (simp add: maxLoop.simps [of posInf board depth i])
    next
      case e: True
      from len have len': "9 \<le> length (board[i := AI_O])" by simp
      from "2.IH"(1) [OF True v e len'] obtain y where
        r: "minimax posInf (board[i := AI_O]) (wrap64 (depth + 1)) False = Inr (board[i := AI_O], y)"
        by blast
      have u: "(board[i := AI_O])[i := EMPTY] = board"
        using e by (simp add: update_same)
      from "2.IH"(2) [OF True v e r refl] len u obtain s where
        "maxLoop posInf board depth (Suc i) (max best y) = Inr (board, s)"
        by auto
      with True v e r u show ?thesis
        by (simp add: maxLoop.simps [of posInf board depth i])
    qed
  qed
next
  case (3 posInf board depth i best)
  note len = "3.prems"
  show ?case
  proof (cases "i < 9")
    case False
    then show ?thesis by (simp add: minLoop.simps [of posInf board])
  next
    case True
    then have v: "cellAt board (int i) = Inr (board ! i)"
      using len by (simp add: cellAt_nat)
    show ?thesis
    proof (cases "board ! i = EMPTY")
      case False
      with "3.IH"(3) [OF True v False len] True v show ?thesis
        by (simp add: minLoop.simps [of posInf board depth i])
    next
      case e: True
      from len have len': "9 \<le> length (board[i := PLAYER_X])" by simp
      from "3.IH"(1) [OF True v e len'] obtain y where
        r: "minimax posInf (board[i := PLAYER_X]) (wrap64 (depth + 1)) True =
              Inr (board[i := PLAYER_X], y)"
        by blast
      have u: "(board[i := PLAYER_X])[i := EMPTY] = board"
        using e by (simp add: update_same)
      from "3.IH"(2) [OF True v e r refl] len u obtain s where
        "minLoop posInf board depth (Suc i) (min best y) = Inr (board, s)"
        by auto
      with True v e r u show ?thesis
        by (simp add: minLoop.simps [of posInf board depth i])
    qed
  qed
qed

lemma minimax_score:
  "9 \<le> length b \<Longrightarrow> minimax posInf b depth isMaximizing = Inr (b, score posInf b depth isMaximizing)"
  using minimax_returns(1) [of b posInf depth isMaximizing] by (auto simp: score_def)

lemma maxLoop_fold:
  assumes len: "9 \<le> length b"
  shows "maxLoop posInf b d i best =
    Inr (b, fold (\<lambda>j acc. max acc (score posInf (b[j := AI_O]) (wrap64 (d + 1)) False))
              (filter (\<lambda>j. b ! j = EMPTY) [i..<9]) best)"
proof (induction "9 - i" arbitrary: i best)
  case 0
  then show ?case by (simp add: maxLoop.simps [of posInf b d i])
next
  case (Suc n)
  then have i: "i < 9" and n: "n = 9 - Suc i" by auto
  have v: "cellAt b (int i) = Inr (b ! i)"
    using len i by (simp add: cellAt_nat)
  have u: "[i..<9] = i # [Suc i..<9]"
    using i by (simp add: upt_conv_Cons)
  show ?case
  proof (cases "b ! i = EMPTY")
    case False
    with Suc.hyps(1) [OF n] i v u show ?thesis
      by (simp add: maxLoop.simps [of posInf b d i])
  next
    case True
    have r: "minimax posInf (b[i := AI_O]) (wrap64 (d + 1)) False =
        Inr (b[i := AI_O], score posInf (b[i := AI_O]) (wrap64 (d + 1)) False)"
      using len by (simp add: minimax_score)
    have "(b[i := AI_O])[i := EMPTY] = b"
      using True by (simp add: update_same)
    with Suc.hyps(1) [OF n] i v u r True show ?thesis
      by (simp add: maxLoop.simps [of posInf b d i])
  qed
qed

lemma minLoop_fold:
  assumes len: "9 \<le> length b"
  shows "minLoop posInf b d i best =
    Inr (b, fold (\<lambda>j acc. min acc (score posInf (b[j := PLAYER_X]) (wrap64 (d + 1)) True))
              (filter (\<lambda>j. b ! j = EMPTY) [i..<9]) best)"
proof (induction "9 - i" arbitrary: i best)
  case 0
  then show ?case by (simp add: minLoop.simps [of posInf b d i])
next
  case (Suc n)
  then have i: "i < 9" and n: "n = 9 - Suc i" by auto
  have v: "cellAt b (int i) = Inr (b ! i)"
    using len i by (simp add: cellAt_nat)
  have u: "[i..<9] = i # [Suc i..<9]"
    using i by (simp add: upt_conv_Cons)
  show ?case
  proof (cases "b ! i = EMPTY")
    case False
    with Suc.hyps(1) [OF n] i v u show ?thesis
      by (simp add: minLoop.simps [of posInf b d i])
  next
    case True
    have r: "minimax posInf (b[i := PLAYER_X]) (wrap64 (d + 1)) True =
        Inr (b[i := PLAYER_X], score posInf (b[i := PLAYER_X]) (wrap64 (d + 1)) True)"
      using len by (simp add: minimax_score)
    have "(b[i := PLAYER_X])[i := EMPTY] = b"
      using True by (simp add: update_same)
    with Suc.hyps(1) [OF n] i v u r True show ?thesis
      by (simp add: minLoop.simps [of posInf b d i])
  qed
qed

lemma fold_max_Max:
  "fold (\<lambda>j acc. max acc (f j)) js (best::int) = Max (insert best (f ` set js))"
proof (induction js arbitrary: best)
  case Nil
  then show ?case by simp
next
  case (Cons j js)
  have "Max (insert (max best (f j)) (f ` set js)) = Max (insert best (insert (f j) (f ` set js)))"
    by (cases "f ` set js = {}") (simp_all add: max.assoc)
  with Cons show ?case by simp
qed

lemma fold_min_Min:
  "fold (\<lambda>j acc. min acc (f j)) js (best::int) = Min (insert best (f ` set js))"
proof (induction js arbitrary: best)
  case Nil
  then show ?case by simp
next
  case (Cons j js)
  have "Min (insert (min best (f j)) (f ` set js)) = Min (insert best (insert (f j) (f ` set js)))"
    by (cases "f ` set js = {}") (simp_all add: min.assoc)
  with Cons show ?case by simp
qed

lemma empties_set: "set (filter (\<lambda>j. b ! j = EMPTY) [0..<9]) = empties b"
  by (auto simp: empties_def)

lemma score_terminal:
  assumes "9 \<le> length b"
  shows "wins3 b AI_O \<Longrightarrow> score posInf b d m = wrap64 (10 - d)"
    and "\<not> wins3 b AI_O \<Longrightarrow> wins3 b PLAYER_X \<Longrightarrow> score posInf b d m = wrap64 (d - 10)"
    and "\<not> wins3 b AI_O \<Longrightarrow> \<not> wins3 b PLAYER_X \<Longrightarrow> isBoardFull b \<Longrightarrow> score posInf b d m = 0"
  using assms by (simp_all add: score_def minimax.simps [of posInf b] minimaxWinChecker_wins3)

lemma score_max_node:
  assumes "9 \<le> length b" "\<not> wins3 b AI_O" "\<not> wins3 b PLAYER_X" "\<not> isBoardFull b"
  shows "score posInf b d True =
    Max (insert (wrap64 (- posInf))
      ((\<lambda>j. score posInf (b[j := AI_O]) (wrap64 (d + 1)) False) ` empties b))"
proof -
  have "minimax posInf b d True =
      Inr (b, fold (\<lambda>j acc. max acc (score posInf (b[j := AI_O]) (wrap64 (d + 1)) False))
                (filter (\<lambda>j. b ! j = EMPTY) [0..<9]) (wrap64 (- posInf)))"
    using assms by (simp add: minimax.simps [of posInf b] minimaxWinChecker_wins3 maxLoop_fold)
  with minimax_score [OF assms(1), of posInf d True] show ?thesis
    by (simp add: fold_max_Max empties_def)
qed

lemma score_min_node:
  assumes "9 \<le> length b" "\<not> wins3 b AI_O" "\<not> wins3 b PLAYER_X" "\<not> isBoardFull b"
  shows "score posInf b d False =
    Min (insert posInf
      ((\<lambda>j. score posInf (b[j := PLAYER_X]) (wrap64 (d + 1)) True) ` empties b))"
proof -
  have "minimax posInf b d False =
      Inr (b, fold (\<lambda>j acc. min acc (score posInf (b[j := PLAYER_X]) (wrap64 (d + 1)) True))
                (filter (\<lambda>j. b ! j = EMPTY) [0..<9]) posInf)"
    using assms by (simp add: minimax.simps [of posInf b] minimaxWinChecker_wins3 minLoop_fold)
  with minimax_score [OF assms(1), of posInf d False] show ?thesis
    by (simp add: fold_min_Min empties_def)
qed

lemma rootLoop_fold:
  assumes len: "9 \<le> length b"
  shows "rootLoop posInf b i bestVal bestMove =
    Inr (b, snd (fold (better (moveVal posInf b))
                   (filter (\<lambda>j. b ! j = EMPTY) [i..<9]) (bestVal, bestMove)))"
proof (induction "9 - i" arbitrary: i bestVal bestMove)
  case 0
  then show ?case by (simp add: rootLoop.simps [of posInf b i])
next
  case (Suc n)
  then have i: "i < 9" and n: "n = 9 - Suc i" by auto
  have v: "cellAt b (int i) = Inr (b ! i)"
    using len i by (simp add: cellAt_nat)
  have u: "[i..<9] = i # [Suc i..<9]"
    using i by (simp add: upt_conv_Cons)
  show ?case
  proof (cases "b ! i = EMPTY")
    case False
    with Suc.hyps(1) [OF n] i v u show ?thesis
      by (simp add: rootLoop.simps [of posInf b i])
  next
    case True
    have r: "minimax posInf (b[i := AI_O]) 0 False = Inr (b[i := AI_O], moveVal posInf b i)"
      using len by (simp add: minimax_score moveVal_def)
    have "(b[i := AI_O])[i := EMPTY] = b"
      using True by (simp add: update_same)
    with Suc.hyps(1) [OF n] i v u r True show ?thesis
      by (simp add: rootLoop.simps [of posInf b i] better_def)
  qed
qed

lemma fold_better_keep:
  "\<forall>j\<in>set js. f j \<le> bv \<Longrightarrow> fold (better f) js (bv, bm) = (bv, bm)"
  by (induction js) (auto simp: better_def)

lemma fold_better_first:
  "\<exists>j\<in>set js. bv < f j \<Longrightarrow>
   \<exists>xs k ys. js = xs @ k # ys \<and> fold (better f) js (bv, bm) = (f k, int k) \<and> bv < f k \<and>
     (\<forall>j\<in>set xs. f j < f k) \<and> (\<forall>j\<in>set ys. f j \<le> f k)"
proof (induction js arbitrary: bv bm)
  case Nil
  then show ?case by simp
next
  case (Cons j js)
  show ?case
  proof (cases "bv < f j")
    case True
    then have step: "fold (better f) (j # js) (bv, bm) = fold (better f) js (f j, int j)"
      by (simp add: better_def)
    show ?thesis
    proof (cases "\<exists>j'\<in>set js. f j < f j'")
      case False
      then have "\<forall>j'\<in>set js. f j' \<le> f j" by auto
      from fold_better_keep [OF this] step True False show ?thesis
        by (intro exI [of _ "[]"] exI [of _ j] exI [of _ js]) auto
    next
      case ex: True
      from Cons.IH [OF ex, of "int j"] obtain xs k ys where
        d: "js = xs @ k # ys" "fold (better f) js (f j, int j) = (f k, int k)" "f j < f k"
          "\<forall>j\<in>set xs. f j < f k" "\<forall>j\<in>set ys. f j \<le> f k"
        by blast
      with step True show ?thesis
        by (intro exI [of _ "j # xs"] exI [of _ k] exI [of _ ys]) auto
    qed
  next
    case False
    then have step: "fold (better f) (j # js) (bv, bm) = fold (better f) js (bv, bm)"
      by (simp add: better_def)
    from False Cons.prems have "\<exists>j\<in>set js. bv < f j" by auto
    from Cons.IH [OF this, of bm] obtain xs k ys where
      d: "js = xs @ k # ys" "fold (better f) js (bv, bm) = (f k, int k)" "bv < f k"
        "\<forall>j\<in>set xs. f j < f k" "\<forall>j\<in>set ys. f j \<le> f k"
      by blast
    with step False show ?thesis
      by (intro exI [of _ "j # xs"] exI [of _ k] exI [of _ ys]) auto
  qed
qed

lemma sorted_split_before:
  assumes "sorted_wrt (<) (xs @ k # ys)" "j \<in> set (xs @ k # ys)" "j < (k::nat)"
  shows "j \<in> set xs"
  using assms by (auto simp: sorted_wrt_append)

lemma empties_list_sorted: "sorted_wrt (<) (filter (\<lambda>j. b ! j = EMPTY) [0..<9])"
  by (simp add: sorted_wrt_filter)

text \<open>What the selector returns, for every value of the platform parameter.\<close>

lemma findBestMoveMinimax_sentinel:
  assumes len: "9 \<le> length b"
    and none: "\<forall>j\<in>empties b. moveVal posInf b j \<le> wrap64 (- posInf)"
  shows "findBestMoveMinimax posInf b = Inr (b, - 1)"
  using none
  by (simp add: findBestMoveMinimax_def rootLoop_fold [OF len] fold_better_keep empties_def)

lemma findBestMoveMinimax_first_max:
  assumes len: "9 \<le> length b"
    and some: "\<exists>j\<in>empties b. wrap64 (- posInf) < moveVal posInf b j"
  shows "\<exists>k\<in>empties b. findBestMoveMinimax posInf b = Inr (b, int k) \<and>
     (\<forall>j\<in>empties b. moveVal posInf b j \<le> moveVal posInf b k) \<and>
     (\<forall>j\<in>empties b. j < k \<longrightarrow> moveVal posInf b j < moveVal posInf b k)"
proof -
  let ?js = "filter (\<lambda>j. b ! j = EMPTY) [0..<9]"
  let ?f = "moveVal posInf b"
  from some have "\<exists>j\<in>set ?js. wrap64 (- posInf) < ?f j"
    by (simp add: empties_def)
  from fold_better_first [OF this, of "- 1"] obtain xs k ys where
    d: "?js = xs @ k # ys" "fold (better ?f) ?js (wrap64 (- posInf), - 1) = (?f k, int k)"
      "\<forall>j\<in>set xs. ?f j < ?f k" "\<forall>j\<in>set ys. ?f j \<le> ?f k"
    by blast
  have s: "set ?js = empties b" by (rule empties_set)
  have k: "k \<in> empties b" using d(1) s by (metis in_set_conv_decomp)
  have le: "\<forall>j\<in>empties b. ?f j \<le> ?f k"
  proof
    fix j assume "j \<in> empties b"
    then have "j \<in> set (xs @ k # ys)" using d(1) s by simp
    with d(3,4) show "?f j \<le> ?f k" by auto
  qed
  have lt: "\<forall>j\<in>empties b. j < k \<longrightarrow> ?f j < ?f k"
  proof (intro ballI impI)
    fix j assume j: "j \<in> empties b" "j < k"
    have "sorted_wrt (<) (xs @ k # ys)" using empties_list_sorted [of b] d(1) by simp
    moreover have "j \<in> set (xs @ k # ys)" using j(1) d(1) s by simp
    ultimately have "j \<in> set xs" using j(2) by (rule sorted_split_before)
    with d(3) show "?f j < ?f k" by blast
  qed
  have "findBestMoveMinimax posInf b = Inr (b, int k)"
    using d(2) by (simp add: findBestMoveMinimax_def rootLoop_fold [OF len])
  with k le lt show ?thesis by blast
qed

lemma wrap64_id: "- (2 ^ 63) \<le> x \<Longrightarrow> x < 2 ^ 63 \<Longrightarrow> wrap64 x = x"
  by (simp add: wrap64_def)

lemma finite_empties [simp]: "finite (empties b)"
  by (simp add: empties_def)

lemma card_empties_le: "card (empties b) \<le> 9"
proof -
  have "empties b \<subseteq> {..<9}" by (auto simp: empties_def)
  then have "card (empties b) \<le> card {..<(9::nat)}" by (intro card_mono) simp_all
  then show ?thesis by simp
qed

lemma empties_update:
  "length b = 9 \<Longrightarrow> j < 9 \<Longrightarrow> mark \<noteq> EMPTY \<Longrightarrow> empties (b[j := mark]) = empties b - {j}"
  by (auto simp: empties_def nth_list_update)

lemma card_empties_update:
  "length b = 9 \<Longrightarrow> j \<in> empties b \<Longrightarrow> mark \<noteq> EMPTY \<Longrightarrow>
   Suc (card (empties (b[j := mark]))) = card (empties b)"
proof -
  assume a: "length b = 9" "j \<in> empties b" "mark \<noteq> EMPTY"
  then have "j < 9" by (simp add: empties_def)
  with a have "empties (b[j := mark]) = empties b - {j}" by (simp add: empties_update)
  with card_Suc_Diff1 [OF finite_empties a(2)] show ?thesis by simp
qed

lemma not_full_empties: "length b = 9 \<Longrightarrow> \<not> isBoardFull b \<Longrightarrow> empties b \<noteq> {}"
  by (auto simp: isBoardFull_iff empties_def in_set_conv_nth)

lemma marks_not_empty [simp]: "AI_O \<noteq> EMPTY" "PLAYER_X \<noteq> EMPTY" "AI_O \<noteq> PLAYER_X"
  by (simp_all add: AI_O_def PLAYER_X_def EMPTY_def)

text \<open>The scores stay between \<open>depth - 10\<close> and \<open>10 - depth\<close> when the conversion saturates.\<close>

lemma score_bounds:
  assumes sat: "10 \<le> posInf" "posInf < 2 ^ 63"
  shows "length b = 9 \<Longrightarrow> 0 \<le> d \<Longrightarrow> d + int (card (empties b)) \<le> 10 \<Longrightarrow>
     d - 10 \<le> score posInf b d m \<and> score posInf b d m \<le> 10 - d"
proof (induction "card (empties b)" arbitrary: b d m)
  case 0
  then have len: "9 \<le> length b" and d: "0 \<le> d" "d \<le> 10" by simp_all
  from 0 have full: "isBoardFull b" using not_full_empties [of b] by auto
  have w: "wrap64 (10 - d) = 10 - d" "wrap64 (d - 10) = d - 10"
    using d by (simp_all add: wrap64_id)
  show ?case
    using score_terminal [OF len, of posInf d m] full w d
    by (cases "wins3 b AI_O"; cases "wins3 b PLAYER_X") auto
next
  case (Suc n)
  then have len: "9 \<le> length b" and d: "0 \<le> d" "d \<le> 9" by simp_all
  have w: "wrap64 (10 - d) = 10 - d" "wrap64 (d - 10) = d - 10" "wrap64 (d + 1) = d + 1"
    "wrap64 (- posInf) = - posInf"
    using d sat by (simp_all add: wrap64_id)
  consider (leaf) "wins3 b AI_O \<or> wins3 b PLAYER_X \<or> isBoardFull b"
    | (inner) "\<not> wins3 b AI_O" "\<not> wins3 b PLAYER_X" "\<not> isBoardFull b"
    by blast
  then show ?case
  proof cases
    case leaf
    then show ?thesis
      using score_terminal [OF len, of posInf d m] w d
      by (cases "wins3 b AI_O"; cases "wins3 b PLAYER_X") auto
  next
    case inner
    from Suc.prems inner have ne: "empties b \<noteq> {}" by (simp add: not_full_empties)
    have child: "d - 9 \<le> score posInf (b[j := mark]) (d + 1) m' \<and>
        score posInf (b[j := mark]) (d + 1) m' \<le> 9 - d"
      if "j \<in> empties b" "mark \<noteq> EMPTY" for j mark m'
    proof -
      from that Suc.prems(1) have c: "Suc (card (empties (b[j := mark]))) = card (empties b)"
        by (simp add: card_empties_update)
      with Suc.hyps(2) have n: "n = card (empties (b[j := mark]))" by simp
      from Suc.hyps(1) [OF n, of "d + 1" m'] Suc.prems c d show ?thesis by simp
    qed
    show ?thesis
    proof (cases m)
      case True
      let ?S = "(\<lambda>j. score posInf (b[j := AI_O]) (d + 1) False) ` empties b"
      have s: "score posInf b d m = Max (insert (- posInf) ?S)"
        using score_max_node [OF len inner, of posInf d] True w by simp
      from ne obtain j where j: "j \<in> empties b" by blast
      have lo: "d - 9 \<le> Max (insert (- posInf) ?S)"
        using child [OF j, of AI_O False] j
        by (subst Max_ge_iff) auto
      have hi: "Max (insert (- posInf) ?S) \<le> 9 - d"
        using child [of _ AI_O False] sat d
        by (subst Max_le_iff) auto
      from lo hi s show ?thesis by linarith
    next
      case False
      let ?S = "(\<lambda>j. score posInf (b[j := PLAYER_X]) (d + 1) True) ` empties b"
      have s: "score posInf b d m = Min (insert posInf ?S)"
        using score_min_node [OF len inner, of posInf d] False w by simp
      from ne obtain j where j: "j \<in> empties b" by blast
      have hi: "Min (insert posInf ?S) \<le> 9 - d"
        using child [OF j, of PLAYER_X True] j
        by (subst Min_le_iff) auto
      have lo: "d - 9 \<le> Min (insert posInf ?S)"
        using child [of _ PLAYER_X True] sat d
        by (subst Min_ge_iff) auto
      from lo hi s show ?thesis by linarith
    qed
  qed
qed

text \<open>Whether a score is negative does not depend on the depth at which it is computed.\<close>

lemma score_sign_shift:
  assumes sat: "10 \<le> posInf" "posInf < 2 ^ 63"
  shows "length b = 9 \<Longrightarrow> 0 \<le> d \<Longrightarrow> 0 \<le> d' \<Longrightarrow> d + int (card (empties b)) \<le> 9 \<Longrightarrow>
     d' + int (card (empties b)) \<le> 9 \<Longrightarrow>
     (0 \<le> score posInf b d m \<longleftrightarrow> 0 \<le> score posInf b d' m)"
proof (induction "card (empties b)" arbitrary: b d d' m)
  case 0
  then have len: "9 \<le> length b" and d: "0 \<le> d" "d \<le> 9" "0 \<le> d'" "d' \<le> 9" by simp_all
  from 0 have full: "isBoardFull b" using not_full_empties [of b] by auto
  have w: "wrap64 (10 - d) = 10 - d" "wrap64 (d - 10) = d - 10"
    "wrap64 (10 - d') = 10 - d'" "wrap64 (d' - 10) = d' - 10"
    using d by (simp_all add: wrap64_id)
  show ?case
    using score_terminal [OF len, of posInf d m] score_terminal [OF len, of posInf d' m] full w d
    by (cases "wins3 b AI_O"; cases "wins3 b PLAYER_X") auto
next
  case (Suc n)
  then have len: "9 \<le> length b" and d: "0 \<le> d" "d \<le> 8" "0 \<le> d'" "d' \<le> 8" by simp_all
  have w: "wrap64 (10 - d) = 10 - d" "wrap64 (d - 10) = d - 10" "wrap64 (d + 1) = d + 1"
    "wrap64 (10 - d') = 10 - d'" "wrap64 (d' - 10) = d' - 10" "wrap64 (d' + 1) = d' + 1"
    "wrap64 (- posInf) = - posInf"
    using d sat by (simp_all add: wrap64_id)
  consider (leaf) "wins3 b AI_O \<or> wins3 b PLAYER_X \<or> isBoardFull b"
    | (inner) "\<not> wins3 b AI_O" "\<not> wins3 b PLAYER_X" "\<not> isBoardFull b"
    by blast
  then show ?case
  proof cases
    case leaf
    then show ?thesis
      using score_terminal [OF len, of posInf d m] score_terminal [OF len, of posInf d' m] w d
      by (cases "wins3 b AI_O"; cases "wins3 b PLAYER_X") auto
  next
    case inner
    from Suc.prems inner have ne: "empties b \<noteq> {}" by (simp add: not_full_empties)
    have child: "0 \<le> score posInf (b[j := mark]) (d + 1) m' \<longleftrightarrow>
        0 \<le> score posInf (b[j := mark]) (d' + 1) m'"
      if "j \<in> empties b" "mark \<noteq> EMPTY" for j mark m'
    proof -
      from that Suc.prems(1) have c: "Suc (card (empties (b[j := mark]))) = card (empties b)"
        by (simp add: card_empties_update)
      with Suc.hyps(2) have n: "n = card (empties (b[j := mark]))" by simp
      from Suc.hyps(1) [OF n, of "d + 1" "d' + 1" m'] Suc.prems c d show ?thesis by simp
    qed
    show ?thesis
    proof (cases m)
      case True
      have s: "score posInf b d m =
          Max (insert (- posInf) ((\<lambda>j. score posInf (b[j := AI_O]) (d + 1) False) ` empties b))"
        "score posInf b d' m =
          Max (insert (- posInf) ((\<lambda>j. score posInf (b[j := AI_O]) (d' + 1) False) ` empties b))"
        using score_max_node [OF len inner, of posInf] True w by simp_all
      have "0 \<le> score posInf b d m \<longleftrightarrow>
          (\<exists>j\<in>empties b. 0 \<le> score posInf (b[j := AI_O]) (d + 1) False)"
        unfolding s using sat by (subst Max_ge_iff) auto
      moreover have "0 \<le> score posInf b d' m \<longleftrightarrow>
          (\<exists>j\<in>empties b. 0 \<le> score posInf (b[j := AI_O]) (d' + 1) False)"
        unfolding s using sat by (subst Max_ge_iff) auto
      ultimately show ?thesis using child [of _ AI_O False] by auto
    next
      case False
      have s: "score posInf b d m =
          Min (insert posInf ((\<lambda>j. score posInf (b[j := PLAYER_X]) (d + 1) True) ` empties b))"
        "score posInf b d' m =
          Min (insert posInf ((\<lambda>j. score posInf (b[j := PLAYER_X]) (d' + 1) True) ` empties b))"
        using score_min_node [OF len inner, of posInf] False w by simp_all
      have "0 \<le> score posInf b d m \<longleftrightarrow>
          (\<forall>j\<in>empties b. 0 \<le> score posInf (b[j := PLAYER_X]) (d + 1) True)"
        unfolding s using sat by (subst Min_ge_iff) auto
      moreover have "0 \<le> score posInf b d' m \<longleftrightarrow>
          (\<forall>j\<in>empties b. 0 \<le> score posInf (b[j := PLAYER_X]) (d' + 1) True)"
        unfolding s using sat by (subst Min_ge_iff) auto
      ultimately show ?thesis using child [of _ PLAYER_X True] by auto
    qed
  qed
qed

subsection \<open>What the selector returns\<close>

lemma moveVal_bounds:
  assumes sat: "10 \<le> posInf" "posInf < 2 ^ 63" and len: "length b = 9" and j: "j \<in> empties b"
  shows "- 10 \<le> moveVal posInf b j \<and> moveVal posInf b j \<le> 10"
proof -
  have "int (card (empties (b[j := AI_O]))) \<le> 10"
    using card_empties_le [of "b[j := AI_O]"] by simp
  with score_bounds [OF sat, of "b[j := AI_O]" 0 False] len show ?thesis
    by (simp add: moveVal_def)
qed

text \<open>
  Where the conversion saturates, the selector returns the first empty cell of maximal
  score whenever the board has an empty cell.
\<close>

lemma selector_saturating:
  assumes sat: "10 < posInf" "posInf < 2 ^ 63" and len: "length b = 9" and ne: "empties b \<noteq> {}"
  shows "\<exists>k\<in>empties b. findBestMoveMinimax posInf b = Inr (b, int k) \<and>
     (\<forall>j\<in>empties b. moveVal posInf b j \<le> moveVal posInf b k) \<and>
     (\<forall>j\<in>empties b. j < k \<longrightarrow> moveVal posInf b j < moveVal posInf b k)"
proof -
  from ne obtain j where j: "j \<in> empties b" by blast
  have w: "wrap64 (- posInf) = - posInf" using sat by (simp add: wrap64_id)
  from moveVal_bounds [OF _ sat(2) len j] sat have "wrap64 (- posInf) < moveVal posInf b j"
    unfolding w by simp
  with j have "\<exists>j\<in>empties b. wrap64 (- posInf) < moveVal posInf b j" by blast
  with len show ?thesis by (intro findBestMoveMinimax_first_max) simp_all
qed

text \<open>
  The running minimum starts at \<open>posInf\<close>, so the score of a position that is not
  terminal, with the human to move, is never above \<open>posInf\<close>.
\<close>

lemma score_min_node_le:
  assumes "9 \<le> length b" "\<not> wins3 b AI_O" "\<not> wins3 b PLAYER_X" "\<not> isBoardFull b"
  shows "score posInf b d False \<le> posInf"
  unfolding score_min_node [OF assms] by (rule Min_le) simp_all

text \<open>
  Where the conversion yields \<open>- (2 ^ 63)\<close>, both \<open>posInf\<close> and \<open>wrap64 (- posInf)\<close> are the
  least 64-bit integer: no move that leaves a position that goes on is ever strictly
  better than the initial \<open>bestVal\<close>, and the selector returns the sentinel.
\<close>

lemma selector_indefinite:
  assumes len: "9 \<le> length b"
    and go_on: "\<forall>j\<in>empties b. \<not> wins3 (b[j := AI_O]) AI_O \<and> \<not> wins3 (b[j := AI_O]) PLAYER_X \<and>
        \<not> isBoardFull (b[j := AI_O])"
  shows "findBestMoveMinimax (- (2 ^ 63)) b = Inr (b, - 1)"
proof (rule findBestMoveMinimax_sentinel [OF len], rule ballI)
  fix j assume "j \<in> empties b"
  with go_on have "\<not> wins3 (b[j := AI_O]) AI_O" "\<not> wins3 (b[j := AI_O]) PLAYER_X"
    "\<not> isBoardFull (b[j := AI_O])" by auto
  from score_min_node_le [OF _ this, of "- (2 ^ 63)" 0] len
  show "moveVal (- (2 ^ 63)) b j \<le> wrap64 (- (- (2 ^ 63)))"
    by (simp add: moveVal_def wrap64_def)
qed

lemma less9: "j < 9 \<Longrightarrow> j = 0 \<or> j = 1 \<or> j = 2 \<or> j = 3 \<or> j = 4 \<or> j = 5 \<or> j = 6 \<or> j = 7 \<or> j = (8::nat)"
  by arith

lemma empties_cases:
  "j \<in> empties b \<Longrightarrow>
     (j = 0 \<or> j = 1 \<or> j = 2 \<or> j = 3 \<or> j = 4 \<or> j = 5 \<or> j = 6 \<or> j = 7 \<or> j = 8) \<and> b ! j = EMPTY"
  using less9 [of j] by (simp add: empties_def)

lemma wrap64_9: "wrap64 9 = 9"
  by (simp add: wrap64_def)

lemma aiMove_3_move:
  assumes "BoardSize st = 3" "findBestMoveMinimax posInf (Board st) = Inr (Board st, int k)"
    "k \<in> empties (Board st)" "9 \<le> length (Board st)"
  shows "aiMove shuffle intn posInf st = Inr (st\<lparr>Board := (Board st)[k := AI_O]\<rparr>)"
  using assms by (simp add: aiMove_def cellAt_nat empties_def)

lemma aiMove_3_sentinel:
  assumes "BoardSize st = 3" "findBestMoveMinimax posInf (Board st) = Inr (Board st, - 1)"
  shows "aiMove shuffle intn posInf st = Inr st"
  using assms by (simp add: aiMove_def)

lemma playHandler_3_move:
  assumes size: "BoardSize st = 3" and len: "length (Board st) = 9"
    and x: "\<not> wins3 (Board st) PLAYER_X" and nf: "\<not> isBoardFull (Board st)"
    and sel: "findBestMoveMinimax posInf (Board st) = Inr (Board st, int k)"
    and k: "k \<in> empties (Board st)"
  shows "playHandler shuffle intn posInf POST (Some st) =
    Inr (Encoded (st\<lparr>Board := (Board st)[k := AI_O],
                      Winner := (if wins3 ((Board st)[k := AI_O]) AI_O then AI_O
                                 else if isBoardFull ((Board st)[k := AI_O]) then ''draw''
                                 else Winner st)\<rparr>))"
proof -
  have m: "aiMove shuffle intn posInf st = Inr (st\<lparr>Board := (Board st)[k := AI_O]\<rparr>)"
    using size sel k len by (intro aiMove_3_move) simp_all
  show ?thesis
    using size len x nf
    by (simp add: playHandler_def wrap64_9 checkWinner_wins3 m)
qed

lemma playHandler_3_sentinel:
  assumes size: "BoardSize st = 3" and len: "length (Board st) = 9"
    and x: "\<not> wins3 (Board st) PLAYER_X" and nf: "\<not> isBoardFull (Board st)"
    and o: "\<not> wins3 (Board st) AI_O"
    and sel: "findBestMoveMinimax posInf (Board st) = Inr (Board st, - 1)"
  shows "playHandler shuffle intn posInf POST (Some st) = Inr (Encoded st)"
proof -
  have m: "aiMove shuffle intn posInf st = Inr st"
    using size sel by (rule aiMove_3_sentinel)
  show ?thesis
    using size len x nf o
    by (simp add: playHandler_def wrap64_9 checkWinner_wins3 m)
qed

lemma playHandler_3_player_won:
  assumes size: "BoardSize st = 3" and len: "length (Board st) = 9"
    and x: "wins3 (Board st) PLAYER_X"
  shows "playHandler shuffle intn posInf POST (Some st) = Inr (Encoded (st\<lparr>Winner := PLAYER_X\<rparr>))"
  using assms by (simp add: playHandler_def wrap64_9 checkWinner_wins3)

lemma playHandler_3_full:
  assumes size: "BoardSize st = 3" and len: "length (Board st) = 9"
    and x: "\<not> wins3 (Board st) PLAYER_X" and "isBoardFull (Board st)"
  shows "playHandler shuffle intn posInf POST (Some st) = Inr (Encoded (st\<lparr>Winner := ''draw''\<rparr>))"
  using assms by (simp add: playHandler_def wrap64_9 checkWinner_wins3)

text \<open>Scores of positions in which the human is to move, at depth 0.\<close>

lemma min_node_ge:
  assumes sat: "10 \<le> posInf" "posInf < 2 ^ 63" and len: "length b = 9"
    and inner: "\<not> wins3 b AI_O" "\<not> wins3 b PLAYER_X" "\<not> isBoardFull b"
  shows "- 9 \<le> score posInf b 0 False"
proof -
  have len9: "9 \<le> length b" using len by simp
  have w: "wrap64 (0 + 1) = 1" by (simp add: wrap64_def)
  have c: "- 9 \<le> score posInf (b[j := PLAYER_X]) 1 True" for j
    using score_bounds [OF sat, of "b[j := PLAYER_X]" 1 True] len
      card_empties_le [of "b[j := PLAYER_X]"] by simp
  show ?thesis
    unfolding score_min_node [OF len9 inner] w using sat c
    by (subst Min_ge_iff) auto
qed

lemma min_node_loss:
  assumes sat: "10 \<le> posInf" "posInf < 2 ^ 63" and len: "length b = 9"
    and inner: "\<not> wins3 b AI_O" "\<not> wins3 b PLAYER_X" "\<not> isBoardFull b"
    and i: "i \<in> empties b" "wins3 (b[i := PLAYER_X]) PLAYER_X" "\<not> wins3 (b[i := PLAYER_X]) AI_O"
  shows "score posInf b 0 False = - 9"
proof -
  have len9: "9 \<le> length b" using len by simp
  have w: "wrap64 (0 + 1) = 1" "wrap64 (1 - 10) = - 9" by (simp_all add: wrap64_def)
  have "score posInf (b[i := PLAYER_X]) 1 True = - 9"
    using score_terminal(2) [of "b[i := PLAYER_X]" posInf 1 True] i len w by simp
  moreover have "Min (insert posInf ((\<lambda>j. score posInf (b[j := PLAYER_X]) 1 True) ` empties b))
      \<le> score posInf (b[i := PLAYER_X]) 1 True"
    using i(1) by (intro Min_le) auto
  ultimately have "score posInf b 0 False \<le> - 9"
    unfolding score_min_node [OF len9 inner] w by simp
  with min_node_ge [OF sat len inner] show ?thesis by simp
qed

lemma rowBoard_length: "length rowBoard = 9"
  by (simp add: rowBoard_def)

lemma rowBoard_moves:
  assumes sat: "10 < posInf" "posInf < 2 ^ 63" and j: "j \<in> empties rowBoard" "j \<noteq> 2"
  shows "moveVal posInf rowBoard j = - 9"
  unfolding moveVal_def
proof (rule min_node_loss [where i = 2])
  show "10 \<le> posInf" "posInf < 2 ^ 63" using sat by simp_all
  show "length (rowBoard[j := AI_O]) = 9" by (simp add: rowBoard_length)
  from empties_cases [OF j(1)] j(2)
  have c: "j = 3 \<or> j = 4 \<or> j = 5 \<or> j = 6 \<or> j = 7 \<or> j = 8"
    by (auto simp: rowBoard_def EMPTY_def)
  from c show "\<not> wins3 (rowBoard[j := AI_O]) AI_O"
    by (elim disjE) (simp_all add: rowBoard_def wins3_def AI_O_def)
  from c show "\<not> wins3 (rowBoard[j := AI_O]) PLAYER_X"
    by (elim disjE) (simp_all add: rowBoard_def wins3_def AI_O_def PLAYER_X_def)
  from c show "\<not> isBoardFull (rowBoard[j := AI_O])"
    by (elim disjE) (simp_all add: rowBoard_def EMPTY_def AI_O_def)
  from c show "2 \<in> empties (rowBoard[j := AI_O])"
    by (elim disjE) (simp_all add: rowBoard_def EMPTY_def empties_def)
  from c show "wins3 (rowBoard[j := AI_O, 2 := PLAYER_X]) PLAYER_X"
    by (elim disjE) (simp_all add: rowBoard_def wins3_def AI_O_def PLAYER_X_def)
  from c show "\<not> wins3 (rowBoard[j := AI_O, 2 := PLAYER_X]) AI_O"
    by (elim disjE) (simp_all add: rowBoard_def wins3_def AI_O_def PLAYER_X_def)
qed

lemma rowBoard_block:
  assumes sat: "10 < posInf" "posInf < 2 ^ 63"
  shows "- 9 \<le> moveVal posInf rowBoard 2"
  unfolding moveVal_def using sat
  by (intro min_node_ge)
     (simp_all add: rowBoard_def wins3_def AI_O_def PLAYER_X_def EMPTY_def)

lemma rowBoard_selector_saturating:
  assumes sat: "10 < posInf" "posInf < 2 ^ 63"
  shows "findBestMoveMinimax posInf rowBoard = Inr (rowBoard, 2)"
proof -
  have two: "2 \<in> empties rowBoard" by (simp add: empties_def rowBoard_def EMPTY_def)
  then have ne: "empties rowBoard \<noteq> {}" by blast
  have len: "length rowBoard = 9" by (simp add: rowBoard_def)
  from selector_saturating [OF sat len ne] obtain k where
    k: "k \<in> empties rowBoard" "findBestMoveMinimax posInf rowBoard = Inr (rowBoard, int k)"
      "\<forall>j\<in>empties rowBoard. j < k \<longrightarrow> moveVal posInf rowBoard j < moveVal posInf rowBoard k"
    by blast
  have "k = 2"
  proof (rule ccontr)
    assume n: "k \<noteq> 2"
    from empties_cases [OF k(1)] n have "2 < k" by (auto simp: rowBoard_def EMPTY_def)
    with k(3) two have "moveVal posInf rowBoard 2 < moveVal posInf rowBoard k" by blast
    with rowBoard_moves [OF sat k(1) n] rowBoard_block [OF sat] show False by simp
  qed
  with k(2) show ?thesis by simp
qed

subsection \<open>Games against the selector\<close>

lemma wins3_mono:
  assumes "\<And>j. b' ! j = p \<Longrightarrow> b ! j = p" and "wins3 b' p"
  shows "wins3 b p"
  using assms(2) unfolding wins3_def
  by (elim disjE conjE) (simp_all add: assms(1))

lemma nth_update_other: "(b[i := q]) ! j = p \<Longrightarrow> q \<noteq> p \<Longrightarrow> b ! j = p"
  by (cases "i < length b"; cases "i = j") (simp_all add: list_update_beyond)

lemma wins3_update_other:
  "\<not> wins3 b p \<Longrightarrow> q \<noteq> p \<Longrightarrow> \<not> wins3 (b[i := q]) p"
  using wins3_mono [of "b[i := q]" p b] nth_update_other [of b i q _ p] by blast

lemma score_lost:
  assumes "9 \<le> length b" "\<not> wins3 b AI_O" "wins3 b PLAYER_X"
  shows "score posInf b 0 m = - 10"
  using score_terminal(2) [OF assms] by (simp add: wrap64_def)

lemma unlost_not_lost:
  assumes "unlost posInf st"
  shows "\<not> wins3 (Board st) PLAYER_X"
proof
  assume "wins3 (Board st) PLAYER_X"
  with assms score_lost [of "Board st" posInf True] show False
    by (simp add: unlost_def)
qed

text \<open>In a request that is not lost, the selector finds a move whose score is not negative.\<close>

lemma unlost_move:
  assumes sat: "10 < posInf" "posInf < 2 ^ 63"
    and h: "unlost posInf st" and nf: "\<not> isBoardFull (Board st)"
  shows "\<exists>k\<in>empties (Board st).
     findBestMoveMinimax posInf (Board st) = Inr (Board st, int k) \<and>
     0 \<le> score posInf ((Board st)[k := AI_O]) 0 False"
proof -
  let ?b = "Board st"
  from h have len: "length ?b = 9" and o: "\<not> wins3 ?b AI_O"
    and s: "0 \<le> score posInf ?b 0 True" by (simp_all add: unlost_def)
  have x: "\<not> wins3 ?b PLAYER_X" using h by (rule unlost_not_lost)
  have sat': "10 \<le> posInf" using sat by simp
  have len9: "9 \<le> length ?b" using len by simp
  have ne: "empties ?b \<noteq> {}" using len nf by (rule not_full_empties)
  have w: "wrap64 (0 + 1) = 1" "wrap64 (- posInf) = - posInf"
    using sat by (simp_all add: wrap64_id)
  have "0 \<le> Max (insert (- posInf) ((\<lambda>j. score posInf (?b[j := AI_O]) 1 False) ` empties ?b))"
    using s unfolding score_max_node [OF len9 o x nf] w .
  then have "\<exists>j\<in>empties ?b. 0 \<le> score posInf (?b[j := AI_O]) 1 False"
    using sat by (subst (asm) Max_ge_iff) auto
  then obtain j where j: "j \<in> empties ?b" "0 \<le> score posInf (?b[j := AI_O]) 1 False"
    by blast
  have c: "int (card (empties (?b[j := AI_O]))) \<le> 8"
    using card_empties_update [OF len j(1), of AI_O] card_empties_le [of ?b] by simp
  have "0 \<le> score posInf (?b[j := AI_O]) 0 False"
    using score_sign_shift [OF sat' sat(2), of "?b[j := AI_O]" 1 0 False] j(2) len c by simp
  then have mj: "0 \<le> moveVal posInf ?b j" by (simp add: moveVal_def)
  from selector_saturating [OF sat len ne] obtain k where
    k: "k \<in> empties ?b" "findBestMoveMinimax posInf ?b = Inr (?b, int k)"
      "\<forall>j\<in>empties ?b. moveVal posInf ?b j \<le> moveVal posInf ?b k"
    by blast
  from k(3) j(1) mj have "0 \<le> moveVal posInf ?b k" by force
  with k(1,2) show ?thesis by (auto simp: moveVal_def)
qed

lemma draw_not_empty [simp]:
  "''draw'' \<noteq> ''''" "AI_O \<noteq> ''''" "''draw'' \<noteq> PLAYER_X" "'''' \<noteq> PLAYER_X" "PLAYER_X \<noteq> AI_O"
  by (simp_all add: AI_O_def PLAYER_X_def)

text \<open>
  The handler's answer to a request that is not lost, and the next requests that the
  human can make of it.
\<close>

lemma unlost_response:
  assumes sat: "10 < posInf" "posInf < 2 ^ 63" and h: "unlost posInf st"
  shows "\<exists>st'. playHandler shuffle intn posInf POST (Some st) = Inr (Encoded st') \<and>
     Winner st' \<noteq> PLAYER_X \<and> \<not> wins3 (Board st) PLAYER_X \<and> \<not> wins3 (Board st') PLAYER_X \<and>
     length (Board st') = 9 \<and>
     (Winner st' = '''' \<longrightarrow>
        (\<forall>i. cellAt (Board st') i = Inr EMPTY \<longrightarrow>
           unlost posInf (st'\<lparr>Board := (Board st')[nat i := PLAYER_X]\<rparr>)))"
proof -
  let ?b = "Board st"
  from h have size: "BoardSize st = 3" and len: "length ?b = 9" and win: "Winner st = ''''"
    and o: "\<not> wins3 ?b AI_O" by (simp_all add: unlost_def)
  have x: "\<not> wins3 ?b PLAYER_X" using h by (rule unlost_not_lost)
  have sat': "10 \<le> posInf" using sat by simp
  show ?thesis
  proof (cases "isBoardFull ?b")
    case True
    from playHandler_3_full [OF size len x True, of shuffle intn posInf] x len show ?thesis
      by simp
  next
    case nf: False
    from unlost_move [OF sat h nf] obtain k where
      k: "k \<in> empties ?b" "findBestMoveMinimax posInf ?b = Inr (?b, int k)"
        "0 \<le> score posInf (?b[k := AI_O]) 0 False"
      by blast
    let ?b1 = "?b[k := AI_O]"
    let ?st' = "st\<lparr>Board := ?b1,
        Winner := (if wins3 ?b1 AI_O then AI_O else if isBoardFull ?b1 then ''draw'' else Winner st)\<rparr>"
    have r: "playHandler shuffle intn posInf POST (Some st) = Inr (Encoded ?st')"
      using size len x nf k(2) k(1) by (rule playHandler_3_move)
    have x1: "\<not> wins3 ?b1 PLAYER_X" by (rule wins3_update_other [OF x]) simp
    have len1: "length ?b1 = 9" "9 \<le> length ?b1" using len by simp_all
    have c1: "int (card (empties ?b1)) \<le> 8"
      using card_empties_update [OF len k(1), of AI_O] card_empties_le [of ?b] by simp
    have next_holds: "unlost posInf (?st'\<lparr>Board := (Board ?st')[nat i := PLAYER_X]\<rparr>)"
      if w': "Winner ?st' = ''''" and i: "cellAt (Board ?st') i = Inr EMPTY" for i
    proof -
      from w' have o1: "\<not> wins3 ?b1 AI_O" and nf1: "\<not> isBoardFull ?b1"
        by (auto split: if_splits)
      from i have i0: "0 \<le> i" "nat i < 9" "?b1 ! nat i = EMPTY"
        using len by (auto simp: cellAt_def split: if_splits)
      then have ie: "nat i \<in> empties ?b1" by (simp add: empties_def)
      have w: "wrap64 (0 + 1) = 1" by (simp add: wrap64_def)
      have "0 \<le> Min (insert posInf ((\<lambda>j. score posInf (?b1[j := PLAYER_X]) 1 True) ` empties ?b1))"
        using k(3) unfolding score_min_node [OF len1(2) o1 x1 nf1] w .
      then have "\<forall>j\<in>empties ?b1. 0 \<le> score posInf (?b1[j := PLAYER_X]) 1 True"
        by (subst (asm) Min_ge_iff) auto
      with ie have s1: "0 \<le> score posInf (?b1[nat i := PLAYER_X]) 1 True" by blast
      have c2: "int (card (empties (?b1[nat i := PLAYER_X]))) \<le> 7"
        using card_empties_update [OF len1(1) ie, of PLAYER_X] c1 by simp
      have s0: "0 \<le> score posInf (?b1[nat i := PLAYER_X]) 0 True"
        using score_sign_shift [OF sat' sat(2), of "?b1[nat i := PLAYER_X]" 1 0 True] s1 len c2
        by simp
      have o2: "\<not> wins3 (?b1[nat i := PLAYER_X]) AI_O"
        by (rule wins3_update_other [OF o1]) simp
      from w' size len s0 o2 show ?thesis
        by (simp add: unlost_def)
    qed
    have "Winner ?st' \<noteq> PLAYER_X" using win by simp
    with r x x1 len1(1) next_holds show ?thesis
      by (intro exI [of _ ?st']) (simp del: GameState.simps)
  qed
qed

lemma requests_unlost:
  assumes sat: "10 < posInf" "posInf < 2 ^ 63" and h: "unlost posInf st0"
    and r: "requests shuffle intn posInf st0 st"
  shows "unlost posInf st"
  using r
proof (induction rule: requests.induct)
  case start
  show ?case by (rule h)
next
  case (reply st st' i)
  from unlost_response [OF sat reply.IH, of shuffle intn] obtain st'' where
    a: "playHandler shuffle intn posInf POST (Some st) = Inr (Encoded st'')" and
    b: "Winner st'' = '''' \<longrightarrow>
        (\<forall>i. cellAt (Board st'') i = Inr EMPTY \<longrightarrow>
           unlost posInf (st''\<lparr>Board := (Board st'')[nat i := PLAYER_X]\<rparr>))"
    by blast
  from a reply.hyps(2) have "st'' = st'" by simp
  with b reply.hyps(3,4) show ?case by blast
qed

lemma unlost_first:
  assumes sat: "10 < posInf" "posInf < 2 ^ 63"
    and size: "BoardSize st0 = 3" and len: "length (Board st0) = 9" and win: "Winner st0 = ''''"
    and nf: "\<not> isBoardFull (Board st0)"
    and x: "minimaxWinChecker (Board st0) PLAYER_X = Inr False"
    and o: "minimaxWinChecker (Board st0) AI_O = Inr False"
    and sel: "findBestMoveMinimax posInf (Board st0) = Inr (b', m)"
    and val: "minimax posInf ((Board st0)[nat m := AI_O]) 0 False = Inr (b'', s)" "0 \<le> s"
  shows "unlost posInf st0"
proof -
  let ?b = "Board st0"
  have len9: "9 \<le> length ?b" using len by simp
  have sat': "10 \<le> posInf" using sat by simp
  from x o len9 have x': "\<not> wins3 ?b PLAYER_X" and o': "\<not> wins3 ?b AI_O"
    by (simp_all add: minimaxWinChecker_wins3)
  have ne: "empties ?b \<noteq> {}" using len nf by (rule not_full_empties)
  from selector_saturating [OF sat len ne] sel obtain k where
    k: "k \<in> empties ?b" "m = int k" by auto
  have "minimax posInf (?b[k := AI_O]) 0 False =
      Inr (?b[k := AI_O], score posInf (?b[k := AI_O]) 0 False)"
    using len9 by (simp add: minimax_score)
  with val k(2) have s0: "0 \<le> score posInf (?b[k := AI_O]) 0 False" by auto
  have c: "int (card (empties (?b[k := AI_O]))) \<le> 8"
    using card_empties_update [OF len k(1), of AI_O] card_empties_le [of ?b] by simp
  have s1: "0 \<le> score posInf (?b[k := AI_O]) 1 False"
    using score_sign_shift [OF sat' sat(2), of "?b[k := AI_O]" 0 1 False] s0 len c by simp
  have w: "wrap64 (0 + 1) = 1" "wrap64 (- posInf) = - posInf"
    using sat by (simp_all add: wrap64_id)
  have "score posInf (?b[k := AI_O]) 1 False \<le>
      Max (insert (- posInf) ((\<lambda>j. score posInf (?b[j := AI_O]) 1 False) ` empties ?b))"
    using k(1) by (intro Max_ge) auto
  with s1 have "0 \<le> score posInf ?b 0 True"
    unfolding score_max_node [OF len9 o' x' nf] w by simp
  with size len win o' show ?thesis by (simp add: unlost_def)
qed

text \<open>
  Claim C1, amended. Where the conversion saturates (\<open>10 < posInf\<close>), take a first
  request with a 3 x 3 board that has an empty cell and no line of either mark, and on
  which the move that the selector returns has a score that is not negative. Then every
  request of every game the human can play from there, the handler answering each request
  and the human marking any empty cell of each answer that carries no winner, is answered;
  no answer names the human as the winner, and the human has no line on the board of any
  request or answer.
\<close>

theorem C1_no_loss_from_unlost_position:
  assumes "10 < posInf" and "posInf < 2 ^ 63"
    and "BoardSize st0 = 3" and "length (Board st0) = 9" and "Winner st0 = ''''"
    and "\<not> isBoardFull (Board st0)"
    and "minimaxWinChecker (Board st0) PLAYER_X = Inr False"
    and "minimaxWinChecker (Board st0) AI_O = Inr False"
    and "findBestMoveMinimax posInf (Board st0) = Inr (b', m)"
    and "minimax posInf ((Board st0)[nat m := AI_O]) 0 False = Inr (b'', s)" and "0 \<le> s"
    and "requests shuffle intn posInf st0 st"
  shows "\<exists>st'. playHandler shuffle intn posInf POST (Some st) = Inr (Encoded st') \<and>
     Winner st' \<noteq> PLAYER_X \<and>
     minimaxWinChecker (Board st) PLAYER_X = Inr False \<and>
     minimaxWinChecker (Board st') PLAYER_X = Inr False"
proof -
  have h0: "unlost posInf st0" using assms(1-11) by (rule unlost_first)
  have h: "unlost posInf st" using assms(1,2) h0 assms(12) by (rule requests_unlost)
  from unlost_response [OF assms(1,2) h, of shuffle intn] obtain st' where
    r: "playHandler shuffle intn posInf POST (Some st) = Inr (Encoded st')"
      "Winner st' \<noteq> PLAYER_X" "\<not> wins3 (Board st) PLAYER_X" "\<not> wins3 (Board st') PLAYER_X"
      "length (Board st') = 9"
    by blast
  have l: "length (Board st) = 9" using h by (simp add: unlost_def)
  from r l show ?thesis by (simp add: minimaxWinChecker_wins3)
qed

lemma late_selector:
  "findBestMoveMinimax (2 ^ 63 - 1) [''X'', ''O'', ''X'', ''O'', ''X'', ''X'', ''O'', '''', ''''] =
     Inr ([''X'', ''O'', ''X'', ''O'', ''X'', ''X'', ''O'', '''', ''''], 8)"
  by code_simp

lemma late_value:
  "minimax (2 ^ 63 - 1) [''X'', ''O'', ''X'', ''O'', ''X'', ''X'', ''O'', '''', ''O''] 0 False =
     Inr ([''X'', ''O'', ''X'', ''O'', ''X'', ''X'', ''O'', '''', ''O''], 0)"
  by code_simp

theorem C1_no_loss_from_unlost_position_witness:
  "\<exists>st'. playHandler (\<lambda>cs. cs) (\<lambda>n. 0) (2 ^ 63 - 1) POST
       (Some \<lparr>Board = [''X'', ''O'', ''X'', ''O'', ''X'', ''X'', ''O'', '''', ''''],
              BoardSize = 3, Winner = ''''\<rparr>) = Inr (Encoded st') \<and>
     Winner st' \<noteq> PLAYER_X \<and>
     minimaxWinChecker [''X'', ''O'', ''X'', ''O'', ''X'', ''X'', ''O'', '''', ''''] PLAYER_X = Inr False \<and>
     minimaxWinChecker (Board st') PLAYER_X = Inr False"
  using C1_no_loss_from_unlost_position
    [of "2 ^ 63 - 1"
        "\<lparr>Board = [''X'', ''O'', ''X'', ''O'', ''X'', ''X'', ''O'', '''', ''''],
          BoardSize = 3, Winner = ''''\<rparr>"
        "[''X'', ''O'', ''X'', ''O'', ''X'', ''X'', ''O'', '''', '''']" 8
        "[''X'', ''O'', ''X'', ''O'', ''X'', ''X'', ''O'', '''', ''O'']" 0
        "\<lambda>cs. cs" "\<lambda>n. 0"
        "\<lparr>Board = [''X'', ''O'', ''X'', ''O'', ''X'', ''X'', ''O'', '''', ''''],
          BoardSize = 3, Winner = ''''\<rparr>"]
    late_selector late_value requests.start
  by (simp add: minimaxWinChecker_wins3 wins3_def EMPTY_def PLAYER_X_def AI_O_def)

lemma forkBoard_length: "length forkBoard = 9"
  by (simp add: forkBoard_def)

lemma forkBoard_moves:
  assumes sat: "10 < posInf" "posInf < 2 ^ 63" and j: "j \<in> empties forkBoard"
  shows "moveVal posInf forkBoard j = - 9"
proof (cases "j = 2")
  case True
  show ?thesis
    unfolding moveVal_def True
  proof (rule min_node_loss [where i = 6])
    show "10 \<le> posInf" "posInf < 2 ^ 63" using sat by simp_all
  qed (simp_all add: forkBoard_def wins3_def AI_O_def PLAYER_X_def EMPTY_def empties_def)
next
  case False
  from empties_cases [OF j] False
  have c: "j = 4 \<or> j = 5 \<or> j = 6 \<or> j = 7 \<or> j = 8"
    by (auto simp: forkBoard_def EMPTY_def)
  show ?thesis
    unfolding moveVal_def
  proof (rule min_node_loss [where i = 2])
    show "10 \<le> posInf" "posInf < 2 ^ 63" using sat by simp_all
    show "length (forkBoard[j := AI_O]) = 9" by (simp add: forkBoard_length)
    from c show "\<not> wins3 (forkBoard[j := AI_O]) AI_O"
      by (elim disjE) (simp_all add: forkBoard_def wins3_def AI_O_def)
    from c show "\<not> wins3 (forkBoard[j := AI_O]) PLAYER_X"
      by (elim disjE) (simp_all add: forkBoard_def wins3_def AI_O_def PLAYER_X_def)
    from c show "\<not> isBoardFull (forkBoard[j := AI_O])"
      by (elim disjE) (simp_all add: forkBoard_def EMPTY_def AI_O_def)
    from c show "2 \<in> empties (forkBoard[j := AI_O])"
      by (elim disjE) (simp_all add: forkBoard_def EMPTY_def empties_def)
    from c show "wins3 (forkBoard[j := AI_O, 2 := PLAYER_X]) PLAYER_X"
      by (elim disjE) (simp_all add: forkBoard_def wins3_def AI_O_def PLAYER_X_def)
    from c show "\<not> wins3 (forkBoard[j := AI_O, 2 := PLAYER_X]) AI_O"
      by (elim disjE) (simp_all add: forkBoard_def wins3_def AI_O_def PLAYER_X_def)
  qed
qed

lemma forkBoard_selector_saturating:
  assumes sat: "10 < posInf" "posInf < 2 ^ 63"
  shows "findBestMoveMinimax posInf forkBoard = Inr (forkBoard, 2)"
proof -
  have two: "2 \<in> empties forkBoard" by (simp add: empties_def forkBoard_def EMPTY_def)
  then have ne: "empties forkBoard \<noteq> {}" by blast
  from selector_saturating [OF sat forkBoard_length ne] obtain k where
    k: "k \<in> empties forkBoard" "findBestMoveMinimax posInf forkBoard = Inr (forkBoard, int k)"
      "\<forall>j\<in>empties forkBoard. j < k \<longrightarrow> moveVal posInf forkBoard j < moveVal posInf forkBoard k"
    by blast
  have "k = 2"
  proof (rule ccontr)
    assume n: "k \<noteq> 2"
    from empties_cases [OF k(1)] n have "2 < k" by (auto simp: forkBoard_def EMPTY_def)
    with k(3) two have "moveVal posInf forkBoard 2 < moveVal posInf forkBoard k" by blast
    with forkBoard_moves [OF sat k(1)] forkBoard_moves [OF sat two] show False by simp
  qed
  with k(2) show ?thesis by simp
qed

text \<open>
  Claim C1 as stated fails, also where the conversion saturates: on the board with the
  human on cells 0, 1 and 3 (an empty cell, no line of either mark) the selector marks
  cell 2, the human marks cell 6, and the handler names the human as the winner.
\<close>

theorem C1_fork_counterexample:
  "minimaxWinChecker [''X'', ''X'', '''', ''X'', '''', '''', '''', '''', ''''] PLAYER_X = Inr False \<and>
   minimaxWinChecker [''X'', ''X'', '''', ''X'', '''', '''', '''', '''', ''''] AI_O = Inr False \<and>
   \<not> isBoardFull [''X'', ''X'', '''', ''X'', '''', '''', '''', '''', ''''] \<and>
   findBestMoveMinimax (2 ^ 63 - 1) [''X'', ''X'', '''', ''X'', '''', '''', '''', '''', ''''] =
     Inr ([''X'', ''X'', '''', ''X'', '''', '''', '''', '''', ''''], 2) \<and>
   requests (\<lambda>cs. cs) (\<lambda>n. 0) (2 ^ 63 - 1)
     \<lparr>Board = [''X'', ''X'', '''', ''X'', '''', '''', '''', '''', ''''], BoardSize = 3, Winner = ''''\<rparr>
     \<lparr>Board = [''X'', ''X'', ''O'', ''X'', '''', '''', ''X'', '''', ''''], BoardSize = 3, Winner = ''''\<rparr> \<and>
   playHandler (\<lambda>cs. cs) (\<lambda>n. 0) (2 ^ 63 - 1) POST
     (Some \<lparr>Board = [''X'', ''X'', ''O'', ''X'', '''', '''', ''X'', '''', ''''],
            BoardSize = 3, Winner = ''''\<rparr>) =
     Inr (Encoded \<lparr>Board = [''X'', ''X'', ''O'', ''X'', '''', '''', ''X'', '''', ''''],
                   BoardSize = 3, Winner = ''X''\<rparr>)"
proof -
  let ?st0 = "\<lparr>Board = forkBoard, BoardSize = 3, Winner = ''''\<rparr>"
  let ?st1 = "\<lparr>Board = [''X'', ''X'', ''O'', ''X'', '''', '''', '''', '''', ''''],
               BoardSize = 3, Winner = ''''\<rparr>"
  have sel: "findBestMoveMinimax (2 ^ 63 - 1) forkBoard = Inr (forkBoard, 2)"
    by (rule forkBoard_selector_saturating) simp_all
  have no: "minimaxWinChecker forkBoard PLAYER_X = Inr False"
    "minimaxWinChecker forkBoard AI_O = Inr False" "\<not> isBoardFull forkBoard"
    by (simp_all add: minimaxWinChecker_wins3 forkBoard_def wins3_def PLAYER_X_def AI_O_def EMPTY_def)
  have "playHandler (\<lambda>cs. cs) (\<lambda>n. 0) (2 ^ 63 - 1) POST (Some ?st0) =
      Inr (Encoded (?st0\<lparr>Board := (Board ?st0)[2 := AI_O],
            Winner := (if wins3 ((Board ?st0)[2 := AI_O]) AI_O then AI_O
                       else if isBoardFull ((Board ?st0)[2 := AI_O]) then ''draw''
                       else Winner ?st0)\<rparr>))"
    using sel
    by (intro playHandler_3_move)
       (simp_all add: forkBoard_def wins3_def PLAYER_X_def EMPTY_def empties_def)
  then have h0: "playHandler (\<lambda>cs. cs) (\<lambda>n. 0) (2 ^ 63 - 1) POST (Some ?st0) = Inr (Encoded ?st1)"
    by (simp add: forkBoard_def wins3_def AI_O_def EMPTY_def)
  have "requests (\<lambda>cs. cs) (\<lambda>n. 0) (2 ^ 63 - 1) ?st0
      (?st1\<lparr>Board := (Board ?st1)[nat 6 := PLAYER_X]\<rparr>)"
    by (rule requests.reply [OF requests.start h0]) (simp_all add: cellAt_def EMPTY_def)
  then have r: "requests (\<lambda>cs. cs) (\<lambda>n. 0) (2 ^ 63 - 1) ?st0
      \<lparr>Board = [''X'', ''X'', ''O'', ''X'', '''', '''', ''X'', '''', ''''], BoardSize = 3, Winner = ''''\<rparr>"
    by (simp add: PLAYER_X_def)
  have w: "playHandler (\<lambda>cs. cs) (\<lambda>n. 0) (2 ^ 63 - 1) POST
     (Some \<lparr>Board = [''X'', ''X'', ''O'', ''X'', '''', '''', ''X'', '''', ''''],
            BoardSize = 3, Winner = ''''\<rparr>) =
     Inr (Encoded \<lparr>Board = [''X'', ''X'', ''O'', ''X'', '''', '''', ''X'', '''', ''''],
                   BoardSize = 3, Winner = ''X''\<rparr>)"
    by (subst playHandler_3_player_won) (simp_all add: wins3_def PLAYER_X_def)
  from sel no r w show ?thesis
    unfolding forkBoard_def by simp
qed

subsection \<open>The selector on both kinds of platform\<close>

text \<open>
  The scenario of claim C3 where the conversion saturates: the selector blocks the row
  at cell 2 and the answer carries no winner.
\<close>

lemma rowBoard_handler_saturating:
  assumes sat: "10 < posInf" "posInf < 2 ^ 63"
  shows "playHandler shuffle intn posInf POST
      (Some \<lparr>Board = [''X'', ''X'', '''', '''', '''', '''', '''', '''', ''''],
             BoardSize = 3, Winner = ''''\<rparr>) =
    Inr (Encoded \<lparr>Board = [''X'', ''X'', ''O'', '''', '''', '''', '''', '''', ''''],
                  BoardSize = 3, Winner = ''''\<rparr>)"
proof -
  let ?st0 = "\<lparr>Board = rowBoard, BoardSize = 3, Winner = ''''\<rparr>"
  have sel: "findBestMoveMinimax posInf rowBoard = Inr (rowBoard, 2)"
    using sat by (rule rowBoard_selector_saturating)
  have "playHandler shuffle intn posInf POST (Some ?st0) =
      Inr (Encoded (?st0\<lparr>Board := (Board ?st0)[2 := AI_O],
            Winner := (if wins3 ((Board ?st0)[2 := AI_O]) AI_O then AI_O
                       else if isBoardFull ((Board ?st0)[2 := AI_O]) then ''draw''
                       else Winner ?st0)\<rparr>))"
    using sel
    by (intro playHandler_3_move)
       (simp_all add: rowBoard_def wins3_def PLAYER_X_def EMPTY_def empties_def)
  then show ?thesis
    by (simp add: rowBoard_def wins3_def AI_O_def EMPTY_def)
qed

text \<open>
  Claim C2 at a failing input. Where the conversion yields \<open>- (2 ^ 63)\<close>, on a board with
  cells 7 and 8 empty the selector returns the sentinel and \<^verbatim>\<open>aiMove\<close> places no mark.
\<close>

theorem C2_sentinel_despite_empty_cells:
  "cellAt [''X'', ''O'', ''X'', ''O'', ''X'', ''X'', ''O'', '''', ''''] 7 = Inr EMPTY \<and>
   findBestMoveMinimax (- (2 ^ 63)) [''X'', ''O'', ''X'', ''O'', ''X'', ''X'', ''O'', '''', ''''] =
     Inr ([''X'', ''O'', ''X'', ''O'', ''X'', ''X'', ''O'', '''', ''''], - 1) \<and>
   aiMove (\<lambda>cs. cs) (\<lambda>n. 0) (- (2 ^ 63))
     \<lparr>Board = [''X'', ''O'', ''X'', ''O'', ''X'', ''X'', ''O'', '''', ''''], BoardSize = 3, Winner = ''''\<rparr> =
     Inr \<lparr>Board = [''X'', ''O'', ''X'', ''O'', ''X'', ''X'', ''O'', '''', ''''], BoardSize = 3, Winner = ''''\<rparr>"
proof -
  let ?b = "[''X'', ''O'', ''X'', ''O'', ''X'', ''X'', ''O'', '''', '''']"
  have sel: "findBestMoveMinimax (- (2 ^ 63)) ?b = Inr (?b, - 1)"
    by (rule selector_indefinite)
       (auto dest!: empties_cases simp: wins3_def AI_O_def PLAYER_X_def EMPTY_def)
  have "aiMove (\<lambda>cs. cs) (\<lambda>n. 0) (- (2 ^ 63)) \<lparr>Board = ?b, BoardSize = 3, Winner = ''''\<rparr> =
      Inr \<lparr>Board = ?b, BoardSize = 3, Winner = ''''\<rparr>"
    by (rule aiMove_3_sentinel) (insert sel, simp_all)
  with sel show ?thesis by (simp add: cellAt_def EMPTY_def)
qed

text \<open>
  Claim C3 at its input. Where the conversion yields \<open>- (2 ^ 63)\<close>, the selector returns
  the sentinel on the board of the scenario and the handler answers with the board
  unchanged: no mark is placed on cell 2.
\<close>

theorem C3_row_not_blocked:
  "findBestMoveMinimax (- (2 ^ 63)) [''X'', ''X'', '''', '''', '''', '''', '''', '''', ''''] =
     Inr ([''X'', ''X'', '''', '''', '''', '''', '''', '''', ''''], - 1) \<and>
   playHandler (\<lambda>cs. cs) (\<lambda>n. 0) (- (2 ^ 63)) POST
     (Some \<lparr>Board = [''X'', ''X'', '''', '''', '''', '''', '''', '''', ''''],
            BoardSize = 3, Winner = ''''\<rparr>) =
     Inr (Encoded \<lparr>Board = [''X'', ''X'', '''', '''', '''', '''', '''', '''', ''''],
                   BoardSize = 3, Winner = ''''\<rparr>)"
proof -
  let ?b = "[''X'', ''X'', '''', '''', '''', '''', '''', '''', '''']"
  have sel: "findBestMoveMinimax (- (2 ^ 63)) ?b = Inr (?b, - 1)"
    by (rule selector_indefinite)
       (auto dest!: empties_cases simp: wins3_def AI_O_def PLAYER_X_def EMPTY_def)
  have "playHandler (\<lambda>cs. cs) (\<lambda>n. 0) (- (2 ^ 63)) POST
      (Some \<lparr>Board = ?b, BoardSize = 3, Winner = ''''\<rparr>) =
      Inr (Encoded \<lparr>Board = ?b, BoardSize = 3, Winner = ''''\<rparr>)"
    by (rule playHandler_3_sentinel)
       (insert sel, simp_all add: wins3_def AI_O_def PLAYER_X_def EMPTY_def)
  with sel show ?thesis by simp
qed

text \<open>
  Claim C4 at a failing input. Where the conversion yields \<open>- (2 ^ 63)\<close>, the selector
  returns the sentinel, which is the index of no cell, on a board with six empty cells.
\<close>

theorem C4_no_maximal_cell_returned:
  "findBestMoveMinimax (- (2 ^ 63)) [''X'', '''', '''', '''', ''O'', '''', '''', '''', ''X''] =
     Inr ([''X'', '''', '''', '''', ''O'', '''', '''', '''', ''X''], - 1)"
  by (rule selector_indefinite)
     (auto dest!: empties_cases simp: wins3_def AI_O_def PLAYER_X_def EMPTY_def)

subsection \<open>The N-scan checker on N x N boards\<close>

lemma cell_index_bound:
  assumes "0 \<le> r" "r < n" "0 \<le> c" "c < (n::int)"
  shows "0 \<le> r * n + c" "r * n + c < n * n"
proof -
  have n: "0 \<le> n" using assms by simp
  show "0 \<le> r * n + c" using assms n by simp
  have "r * n \<le> (n - 1) * n" using assms n by (intro mult_right_mono) simp_all
  then have "r * n + c < (n - 1) * n + n" using assms by linarith
  then show "r * n + c < n * n" by (simp add: algebra_simps)
qed

lemma idx_plain:
  assumes "0 \<le> r" "r < n" "0 \<le> c" "c < n" "n * n < 2 ^ 63"
  shows "idx n r c = r * n + c"
proof -
  have n: "0 \<le> n" using assms by simp
  have a: "0 \<le> r * n" using assms n by simp
  have "r * n \<le> r * n + c" using assms by simp
  with cell_index_bound [OF assms(1-4)] assms(5) have b: "r * n < 2 ^ 63" "r * n + c < 2 ^ 63"
    by simp_all
  from a b cell_index_bound(1) [OF assms(1-4)] show ?thesis
    by (simp add: idx_def wrap64_id)
qed

lemma size_bound:
  assumes "0 < n" "n * n < (2::int) ^ 63"
  shows "n < 2 ^ 63"
proof -
  have "n * 1 \<le> n * n" using assms(1) by (intro mult_left_mono) simp_all
  with assms(2) show ?thesis by simp
qed

lemma scanLine_map:
  "\<forall>c\<in>set cs. 0 \<le> f c \<and> f c < int (length b) \<Longrightarrow>
   scanLine b p (map f cs) = Inr (\<forall>c\<in>set cs. b ! nat (f c) = p)"
  by (induction cs) (auto simp: cellAt_def)

lemma scanLines_map:
  "\<forall>r\<in>set rs. \<forall>c\<in>set cs. 0 \<le> f r c \<and> f r c < int (length b) \<Longrightarrow>
   scanLines b p (map (\<lambda>r. map (f r) cs) rs) = Inr (\<exists>r\<in>set rs. \<forall>c\<in>set cs. b ! nat (f r c) = p)"
  by (induction rs) (auto simp: scanLine_map)

text \<open>
  On an N x N board (\<open>0 < n\<close>, \<open>n * n\<close> cells) the N-scan checker never panics and
  returns whether some row, some column or one of the two diagonals holds the mark alone.
\<close>

lemma checkWinner_hasWon:
  assumes n: "0 < n" and len: "int (length b) = n * n" and small: "n * n < 2 ^ 63"
  shows "checkWinner b p n = Inr (hasWon b p n)"
proof -
  have ix: "idx n r c = r * n + c" if "r \<in> {0..n - 1}" "c \<in> {0..n - 1}" for r c
    using that small by (intro idx_plain) simp_all
  have rg: "0 \<le> r * n + c \<and> r * n + c < int (length b)" if "r \<in> {0..n - 1}" "c \<in> {0..n - 1}" for r c
    using cell_index_bound [of r n c] that len by simp
  have w: "wrap64 (n - 1) = n - 1" using n size_bound [OF n small] by (simp add: wrap64_id)
  have w': "wrap64 (n - 1 - i) = n - 1 - i" if "i \<in> {0..n - 1}" for i
    using that size_bound [OF n small] by (simp add: wrap64_id)
  have rows: "scanLines b p (map (\<lambda>r. map (\<lambda>c. idx n r c) [0..n - 1]) [0..n - 1]) =
      Inr (\<exists>r\<in>{0..n - 1}. \<forall>c\<in>{0..n - 1}. b ! nat (r * n + c) = p)"
    using scanLines_map [of "[0..n - 1]" "[0..n - 1]" "\<lambda>r c. idx n r c" b p]
    by (simp add: ix rg)
  have cols: "scanLines b p (map (\<lambda>c. map (\<lambda>r. idx n r c) [0..n - 1]) [0..n - 1]) =
      Inr (\<exists>c\<in>{0..n - 1}. \<forall>r\<in>{0..n - 1}. b ! nat (r * n + c) = p)"
    using scanLines_map [of "[0..n - 1]" "[0..n - 1]" "\<lambda>c r. idx n r c" b p]
    by (simp add: ix rg)
  have d1: "scanLine b p (map (\<lambda>i. idx n i i) [0..n - 1]) =
      Inr (\<forall>i\<in>{0..n - 1}. b ! nat (i * n + i) = p)"
    using scanLine_map [of "[0..n - 1]" "\<lambda>i. idx n i i" b p]
    by (simp add: ix rg)
  have d2: "scanLine b p (map (\<lambda>i. idx n i (wrap64 (wrap64 (n - 1) - i))) [0..n - 1]) =
      Inr (\<forall>i\<in>{0..n - 1}. b ! nat (i * n + (n - 1 - i)) = p)"
    using scanLine_map [of "[0..n - 1]" "\<lambda>i. idx n i (wrap64 (wrap64 (n - 1) - i))" b p]
    by (simp add: ix rg w w')
  show ?thesis
    unfolding checkWinner_def rows cols d1 d2 hasWon_def by auto
qed

subsection \<open>The heuristic selector\<close>

lemma tryMoves_find:
  assumes n: "0 < n" and len: "int (length b) = n * n" and small: "n * n < 2 ^ 63"
  shows "tryMoves b mark n spots =
    Inr (List.find (\<lambda>k. hasWon (b[nat k := mark]) mark n) spots)"
proof (induction spots)
  case Nil
  show ?case by simp
next
  case (Cons k spots)
  have "checkWinner (b[nat k := mark]) mark n = Inr (hasWon (b[nat k := mark]) mark n)"
    using n len small by (intro checkWinner_hasWon) simp_all
  with Cons show ?case by simp
qed

lemma find_first:
  "sorted_wrt (<) xs \<Longrightarrow> k \<in> set xs \<Longrightarrow> P k \<Longrightarrow> (\<forall>j\<in>set xs. j < k \<longrightarrow> \<not> P j) \<Longrightarrow>
   List.find P xs = Some (k::int)"
  by (induction xs) auto

lemma find_none: "(\<forall>j\<in>set xs. \<not> P j) \<Longrightarrow> List.find P xs = None"
  by (induction xs) auto

lemma getEmptySpots_sorted: "sorted_wrt (<) (getEmptySpots b)"
  by (simp add: getEmptySpots_def sorted_wrt_map sorted_wrt_filter)

lemma getEmptySpots_set: "set (getEmptySpots b) = int ` {i. i < length b \<and> b ! i = EMPTY}"
  by (auto simp: getEmptySpots_def)

lemma getEmptySpots_nonempty: "\<not> isBoardFull b \<Longrightarrow> getEmptySpots b \<noteq> []"
proof -
  assume "\<not> isBoardFull b"
  then obtain i where "i < length b" "b ! i = EMPTY"
    by (auto simp: isBoardFull_iff in_set_conv_nth)
  then have "int i \<in> set (getEmptySpots b)" by (simp add: getEmptySpots_set)
  then show ?thesis by auto
qed

text \<open>
  Claim C5. On an N x N board (\<open>0 < N\<close>, of any size, also 3) with an empty cell the
  heuristic selector never panics in its first two stages, and: if filling some empty cell
  with the AI's mark makes \<^verbatim>\<open>checkWinner\<close> true, it returns the lowest such cell; if no
  empty cell does that but filling some empty cell with the human's mark makes
  \<^verbatim>\<open>checkWinner\<close> true for the human, it returns the lowest such cell; and only when no
  empty cell does either is its result that of the centre, corner and random stages.
\<close>

theorem C5_win_then_block:
  assumes "0 < n" and "int (length b) = n * n" and "n * n < 2 ^ 63" and "\<not> isBoardFull b"
  shows
    "(\<forall>k. k < length b \<and> b ! k = EMPTY \<and> checkWinner (b[k := AI_O]) AI_O n = Inr True \<and>
          (\<forall>j<k. b ! j = EMPTY \<longrightarrow> checkWinner (b[j := AI_O]) AI_O n = Inr False) \<longrightarrow>
        findBestMoveHeuristic shuffle intn b n = Inr (int k)) \<and>
     (\<forall>k. (\<forall>j<length b. b ! j = EMPTY \<longrightarrow> checkWinner (b[j := AI_O]) AI_O n = Inr False) \<and>
          k < length b \<and> b ! k = EMPTY \<and> checkWinner (b[k := PLAYER_X]) PLAYER_X n = Inr True \<and>
          (\<forall>j<k. b ! j = EMPTY \<longrightarrow> checkWinner (b[j := PLAYER_X]) PLAYER_X n = Inr False) \<longrightarrow>
        findBestMoveHeuristic shuffle intn b n = Inr (int k)) \<and>
     ((\<forall>j<length b. b ! j = EMPTY \<longrightarrow> checkWinner (b[j := AI_O]) AI_O n = Inr False) \<and>
      (\<forall>j<length b. b ! j = EMPTY \<longrightarrow> checkWinner (b[j := PLAYER_X]) PLAYER_X n = Inr False) \<longrightarrow>
        findBestMoveHeuristic shuffle intn b n =
          centerCornerRandom shuffle intn b n (getEmptySpots b))"
proof -
  note v = assms(1-3)
  have cw: "checkWinner (b[j := mark]) mark n = Inr (hasWon (b[j := mark]) mark n)" for j mark
    using v by (intro checkWinner_hasWon) simp_all
  have ne: "getEmptySpots b \<noteq> []" using assms(4) by (rule getEmptySpots_nonempty)
  let ?P = "\<lambda>mark k. hasWon (b[nat k := mark]) mark n"
  have h: "findBestMoveHeuristic shuffle intn b n =
      (case List.find (?P AI_O) (getEmptySpots b) of
         Some move \<Rightarrow> Inr move
       | None \<Rightarrow>
          (case List.find (?P PLAYER_X) (getEmptySpots b) of
             Some move \<Rightarrow> Inr move
           | None \<Rightarrow> centerCornerRandom shuffle intn b n (getEmptySpots b)))"
    using ne by (simp add: findBestMoveHeuristic_def tryMoves_find [OF v] Let_def split: option.split)
  have first: "List.find (?P mark) (getEmptySpots b) = Some (int k)"
    if "k < length b" "b ! k = EMPTY" "checkWinner (b[k := mark]) mark n = Inr True"
      "\<forall>j<k. b ! j = EMPTY \<longrightarrow> checkWinner (b[j := mark]) mark n = Inr False" for mark k
  proof (rule find_first [OF getEmptySpots_sorted])
    show "int k \<in> set (getEmptySpots b)" using that(1,2) by (simp add: getEmptySpots_set)
    show "?P mark (int k)" using that(3) by (simp add: cw)
    show "\<forall>j\<in>set (getEmptySpots b). j < int k \<longrightarrow> \<not> ?P mark j"
      using that(4) by (auto simp: getEmptySpots_set cw)
  qed
  have none: "List.find (?P mark) (getEmptySpots b) = None"
    if "\<forall>j<length b. b ! j = EMPTY \<longrightarrow> checkWinner (b[j := mark]) mark n = Inr False" for mark
    using that by (intro find_none) (auto simp: getEmptySpots_set cw)
  show ?thesis
    unfolding h by (auto simp: first none)
qed

lemma less16:
  "j < 16 \<Longrightarrow> j = 0 \<or> j = 1 \<or> j = 2 \<or> j = 3 \<or> j = 4 \<or> j = 5 \<or> j = 6 \<or> j = 7 \<or> j = 8 \<or>
     j = 9 \<or> j = 10 \<or> j = 11 \<or> j = 12 \<or> j = 13 \<or> j = 14 \<or> j = (15::nat)"
  by arith

lemma less7:
  "j < 7 \<Longrightarrow> j = 0 \<or> j = 1 \<or> j = 2 \<or> j = 3 \<or> j = 4 \<or> j = 5 \<or> j = (6::nat)"
  by arith

lemma less3: "j < 3 \<Longrightarrow> j = 0 \<or> j = 1 \<or> j = (2::nat)"
  by arith

lemma winBoard_3: "checkWinner (winBoard[3 := AI_O]) AI_O 4 = Inr True"
  by code_simp

lemma winBoard_before:
  "\<forall>j<3. winBoard ! j = EMPTY \<longrightarrow> checkWinner (winBoard[j := AI_O]) AI_O 4 = Inr False"
proof (intro allI, rule impI)
  fix j :: nat assume "j < 3"
  then have "j = 0 \<or> j = 1 \<or> j = 2" by (rule less3)
  then show "winBoard ! j = EMPTY \<longrightarrow> checkWinner (winBoard[j := AI_O]) AI_O 4 = Inr False"
    by (elim disjE; hypsubst; code_simp)
qed

lemma blockBoard_no_win:
  "\<forall>j<length blockBoard. blockBoard ! j = EMPTY \<longrightarrow>
     checkWinner (blockBoard[j := AI_O]) AI_O 4 = Inr False"
proof (intro allI, rule impI)
  fix j :: nat assume "j < length blockBoard"
  then have "j < 16" by (simp add: blockBoard_def)
  then have "j = 0 \<or> j = 1 \<or> j = 2 \<or> j = 3 \<or> j = 4 \<or> j = 5 \<or> j = 6 \<or> j = 7 \<or> j = 8 \<or>
     j = 9 \<or> j = 10 \<or> j = 11 \<or> j = 12 \<or> j = 13 \<or> j = 14 \<or> j = 15" by (rule less16)
  then show "blockBoard ! j = EMPTY \<longrightarrow> checkWinner (blockBoard[j := AI_O]) AI_O 4 = Inr False"
    by (elim disjE; hypsubst; code_simp)
qed

lemma blockBoard_7: "checkWinner (blockBoard[7 := PLAYER_X]) PLAYER_X 4 = Inr True"
  by code_simp

lemma blockBoard_before:
  "\<forall>j<7. blockBoard ! j = EMPTY \<longrightarrow>
     checkWinner (blockBoard[j := PLAYER_X]) PLAYER_X 4 = Inr False"
proof (intro allI, rule impI)
  fix j :: nat assume "j < 7"
  then have "j = 0 \<or> j = 1 \<or> j = 2 \<or> j = 3 \<or> j = 4 \<or> j = 5 \<or> j = 6" by (rule less7)
  then show "blockBoard ! j = EMPTY \<longrightarrow>
      checkWinner (blockBoard[j := PLAYER_X]) PLAYER_X 4 = Inr False"
    by (elim disjE; hypsubst; code_simp)
qed

theorem C5_win_then_block_witness:
  "findBestMoveHeuristic (\<lambda>cs. cs) (\<lambda>n. 0) winBoard 4 = Inr 3 \<and>
   findBestMoveHeuristic (\<lambda>cs. cs) (\<lambda>n. 0) blockBoard 4 = Inr 7"
proof
  have v: "(0::int) < 4" "int (length winBoard) = 4 * 4" "(4::int) * 4 < 2 ^ 63"
    "\<not> isBoardFull winBoard"
    by (simp_all add: winBoard_def EMPTY_def)
  from C5_win_then_block [OF v, of "\<lambda>cs. cs" "\<lambda>n. 0", THEN conjunct1, rule_format, of 3]
    winBoard_3 winBoard_before
  show "findBestMoveHeuristic (\<lambda>cs. cs) (\<lambda>n. 0) winBoard 4 = Inr 3"
    by (simp add: winBoard_def EMPTY_def)
next
  have v: "(0::int) < 4" "int (length blockBoard) = 4 * 4" "(4::int) * 4 < 2 ^ 63"
    "\<not> isBoardFull blockBoard"
    by (simp_all add: blockBoard_def EMPTY_def)
  from C5_win_then_block
    [OF v, of "\<lambda>cs. cs" "\<lambda>n. 0", THEN conjunct2, THEN conjunct1, rule_format, of 7]
    blockBoard_no_win blockBoard_7 blockBoard_before
  show "findBestMoveHeuristic (\<lambda>cs. cs) (\<lambda>n. 0) blockBoard 4 = Inr 7"
    by (simp add: blockBoard_def EMPTY_def)
qed

subsection \<open>The move leaves all but one cell alone\<close>

lemma rootLoop_frame:
  "rootLoop posInf board i bestVal bestMove = Inr (b', m) \<Longrightarrow> b' = board"
proof (induction posInf board i bestVal bestMove arbitrary: b' m rule: rootLoop.induct)
  case (1 posInf board i bestVal bestMove)
  show ?case
  proof (cases "i < 9")
    case False
    with "1.prems" show ?thesis by (simp add: rootLoop.simps [of posInf board])
  next
    case True
    from "1.prems" True obtain v where v: "cellAt board (int i) = Inr v"
      by (auto simp: rootLoop.simps [of posInf board] split: sum.splits)
    then have i: "i < length board" "board ! i = v" using cellAt_Inr_nat by blast+
    show ?thesis
    proof (cases "v = EMPTY")
      case False
      with "1.prems" True v have "rootLoop posInf board (Suc i) bestVal bestMove = Inr (b', m)"
        by (simp add: rootLoop.simps [of posInf board i])
      with "1.IH"(3) [OF True v False] show ?thesis .
    next
      case e: True
      from "1.prems" True v e obtain x y where
        r: "minimax posInf (board[i := AI_O]) 0 False = Inr (x, y)" and
        l: "(if y > bestVal then rootLoop posInf (x[i := EMPTY]) (Suc i) y (int i)
             else rootLoop posInf (x[i := EMPTY]) (Suc i) bestVal bestMove) = Inr (b', m)"
        by (auto simp: rootLoop.simps [of posInf board i] split: sum.splits)
      from minimax_frame(1) [OF r] have x: "x = board[i := AI_O]" .
      have "b' = x[i := EMPTY]"
      proof (cases "y > bestVal")
        case True
        with l "1.IH"(1) [OF \<open>i < 9\<close> v e r refl True] show ?thesis by simp
      next
        case False
        with l "1.IH"(2) [OF \<open>i < 9\<close> v e r refl False] show ?thesis by simp
      qed
      with x i e show ?thesis by (simp add: update_same)
    qed
  qed
qed

lemma findBestMoveMinimax_frame:
  "findBestMoveMinimax posInf b = Inr (b', m) \<Longrightarrow> b' = b"
  unfolding findBestMoveMinimax_def by (rule rootLoop_frame)

lemma fold_better_move:
  "snd (fold (better f) js (bv, bm)) = bm \<or> snd (fold (better f) js (bv, bm)) \<in> int ` set js"
proof (induction js arbitrary: bv bm)
  case Nil
  show ?case by simp
next
  case (Cons j js)
  from Cons [of bv bm] Cons [of "f j" "int j"] show ?case
    by (auto simp: better_def)
qed

lemma findBestMoveMinimax_returns:
  assumes "9 \<le> length b"
  shows "\<exists>m. findBestMoveMinimax posInf b = Inr (b, m) \<and> (m = - 1 \<or> (\<exists>k\<in>empties b. m = int k))"
  using fold_better_move [of "moveVal posInf b" "filter (\<lambda>j. b ! j = EMPTY) [0..<9]"
      "wrap64 (- posInf)" "- 1"]
  by (auto simp: findBestMoveMinimax_def rootLoop_fold [OF assms] empties_def)

lemma aiMove_3_returns:
  assumes "BoardSize st = 3" "9 \<le> length (Board st)"
  shows "\<exists>st'. aiMove shuffle intn posInf st = Inr st'"
proof -
  from findBestMoveMinimax_returns [OF assms(2), of posInf] obtain m where
    m: "findBestMoveMinimax posInf (Board st) = Inr (Board st, m)"
      "m = - 1 \<or> (\<exists>k\<in>empties (Board st). m = int k)"
    by blast
  from m(2) show ?thesis
  proof
    assume "m = - 1"
    with m(1) assms(1) show ?thesis by (simp add: aiMove_def)
  next
    assume "\<exists>k\<in>empties (Board st). m = int k"
    then obtain k where "k \<in> empties (Board st)" "m = int k" by blast
    with m(1) assms show ?thesis by (simp add: aiMove_def cellAt_nat empties_def)
  qed
qed

text \<open>
  Claim C8. When \<^verbatim>\<open>aiMove\<close> returns, the state it leaves differs from the one it was
  given in at most one cell of the board, which was empty and now holds the AI's mark;
  every cell that was not empty is as it was. The exhaustive selector hands back the board
  it was given, whatever it wrote and undid on the way; and on a board of size 3 with nine
  cells \<^verbatim>\<open>aiMove\<close> does return.
\<close>

theorem C8_aiMove_changes_at_most_one_cell:
  "(aiMove shuffle intn posInf st = Inr st' \<longrightarrow>
      BoardSize st' = BoardSize st \<and> Winner st' = Winner st \<and>
      (Board st' = Board st \<or>
       (\<exists>k<length (Board st). Board st ! k = EMPTY \<and> Board st' = (Board st)[k := AI_O])) \<and>
      (\<forall>i<length (Board st). Board st ! i \<noteq> EMPTY \<longrightarrow> Board st' ! i = Board st ! i)) \<and>
   (findBestMoveMinimax posInf b = Inr (b', m) \<longrightarrow> b' = b) \<and>
   (BoardSize st = 3 \<and> length (Board st) = 9 \<longrightarrow> (\<exists>st'. aiMove shuffle intn posInf st = Inr st'))"
proof (intro conjI impI)
  assume a: "aiMove shuffle intn posInf st = Inr st'"
  then obtain board' bestMove where
    sel: "(if BoardSize st = 3 then findBestMoveMinimax posInf (Board st)
           else (case findBestMoveHeuristic shuffle intn (Board st) (BoardSize st) of
                   Inl e \<Rightarrow> Inl e
                 | Inr move \<Rightarrow> Inr (Board st, move))) = Inr (board', bestMove)"
    by (auto simp: aiMove_def split: sum.splits)
  have same: "board' = Board st"
    using sel findBestMoveMinimax_frame [of posInf "Board st" board' bestMove]
    by (auto split: if_splits sum.splits)
  from a sel same have st': "st' = st \<or>
      (cellAt (Board st) bestMove = Inr EMPTY \<and> st' = st\<lparr>Board := (Board st)[nat bestMove := AI_O]\<rparr>)"
    by (auto simp: aiMove_def split: sum.splits if_splits)
  then show "BoardSize st' = BoardSize st" "Winner st' = Winner st" by auto
  from st' show one: "Board st' = Board st \<or>
       (\<exists>k<length (Board st). Board st ! k = EMPTY \<and> Board st' = (Board st)[k := AI_O])"
  proof
    assume "st' = st"
    then show ?thesis by simp
  next
    assume c: "cellAt (Board st) bestMove = Inr EMPTY \<and>
        st' = st\<lparr>Board := (Board st)[nat bestMove := AI_O]\<rparr>"
    then have "nat bestMove < length (Board st)" "Board st ! nat bestMove = EMPTY"
      by (auto simp: cellAt_def split: if_splits)
    with c show ?thesis by auto
  qed
  show "\<forall>i<length (Board st). Board st ! i \<noteq> EMPTY \<longrightarrow> Board st' ! i = Board st ! i"
    using one by (auto simp: nth_list_update)
next
  assume "findBestMoveMinimax posInf b = Inr (b', m)"
  then show "b' = b" by (rule findBestMoveMinimax_frame)
next
  assume "BoardSize st = 3 \<and> length (Board st) = 9"
  then show "\<exists>st'. aiMove shuffle intn posInf st = Inr st'"
    by (intro aiMove_3_returns) simp_all
qed

theorem C8_aiMove_changes_at_most_one_cell_witness:
  "aiMove (\<lambda>cs. cs) (\<lambda>n. 0) (2 ^ 63 - 1)
     \<lparr>Board = [''X'', ''O'', ''X'', ''O'', ''X'', ''X'', ''O'', '''', ''''], BoardSize = 3, Winner = ''''\<rparr> =
     Inr \<lparr>Board = [''X'', ''O'', ''X'', ''O'', ''X'', ''X'', ''O'', '''', ''O''], BoardSize = 3, Winner = ''''\<rparr> \<and>
   ([''X'', ''O'', ''X'', ''O'', ''X'', ''X'', ''O'', '''', ''O''] =
      [''X'', ''O'', ''X'', ''O'', ''X'', ''X'', ''O'', '''', ''''] \<or>
    (\<exists>k<9. [''X'', ''O'', ''X'', ''O'', ''X'', ''X'', ''O'', '''', ''''] ! k = EMPTY \<and>
       [''X'', ''O'', ''X'', ''O'', ''X'', ''X'', ''O'', '''', ''O''] =
       [''X'', ''O'', ''X'', ''O'', ''X'', ''X'', ''O'', '''', ''''][k := AI_O]))"
proof -
  let ?b = "[''X'', ''O'', ''X'', ''O'', ''X'', ''X'', ''O'', '''', '''']"
  let ?st = "\<lparr>Board = ?b, BoardSize = 3, Winner = ''''\<rparr>"
  let ?st' = "\<lparr>Board = [''X'', ''O'', ''X'', ''O'', ''X'', ''X'', ''O'', '''', ''O''],
               BoardSize = 3, Winner = ''''\<rparr>"
  have "aiMove (\<lambda>cs. cs) (\<lambda>n. 0) (2 ^ 63 - 1) ?st = Inr (?st\<lparr>Board := (Board ?st)[8 := AI_O]\<rparr>)"
    by (rule aiMove_3_move) (insert late_selector, simp_all add: empties_def EMPTY_def)
  then have a: "aiMove (\<lambda>cs. cs) (\<lambda>n. 0) (2 ^ 63 - 1) ?st = Inr ?st'"
    by (simp add: AI_O_def)
  have len: "length ?b = 9" by simp
  from C8_aiMove_changes_at_most_one_cell
    [of "\<lambda>cs. cs" "\<lambda>n. 0" "2 ^ 63 - 1" ?st ?st' ?b ?b 8, THEN conjunct1, rule_format, OF a]
  have "Board ?st' = Board ?st \<or>
      (\<exists>k<length (Board ?st). Board ?st ! k = EMPTY \<and> Board ?st' = (Board ?st)[k := AI_O])"
    by blast
  then have "[''X'', ''O'', ''X'', ''O'', ''X'', ''X'', ''O'', '''', ''O''] = ?b \<or>
      (\<exists>k<9. ?b ! k = EMPTY \<and>
         [''X'', ''O'', ''X'', ''O'', ''X'', ''X'', ''O'', '''', ''O''] = ?b[k := AI_O])"
    by (simp only: GameState.select_convs len)
  with a show ?thesis by (rule conjI)
qed

subsection \<open>The handler\<close>

lemma hasWon_mono:
  assumes "hasWon b p n"
  shows "hasWon (b[k := p]) p n"
proof -
  have c: "b ! j = p \<Longrightarrow> (b[k := p]) ! j = p" for j
    by (cases "k < length b"; cases "k = j") (simp_all add: list_update_beyond)
  from assms show ?thesis
    unfolding hasWon_def by (elim disjE bexE) (blast intro: c)+
qed

lemma wins3_hasWon:
  assumes "length b = 9"
  shows "wins3 b p \<longleftrightarrow> hasWon b p 3"
  using checkWinner_wins3 [of b p] checkWinner_hasWon [of 3 b p] assms by simp

lemma first_empty:
  assumes "\<not> isBoardFull b"
  shows "\<exists>k<length b. b ! k = EMPTY \<and> (\<forall>j<k. b ! j \<noteq> EMPTY)"
proof -
  from assms obtain i where i: "i < length b \<and> b ! i = EMPTY"
    by (auto simp: isBoardFull_iff in_set_conv_nth)
  let ?k = "LEAST i. i < length b \<and> b ! i = EMPTY"
  have "?k < length b \<and> b ! ?k = EMPTY" using i by (rule LeastI)
  moreover have "\<forall>j<?k. b ! j \<noteq> EMPTY"
  proof (intro allI impI)
    fix j assume j: "j < ?k"
    then have "\<not> (j < length b \<and> b ! j = EMPTY)" by (rule not_less_Least)
    moreover from j \<open>?k < length b \<and> b ! ?k = EMPTY\<close> have "j < length b" by simp
    ultimately show "b ! j \<noteq> EMPTY" by blast
  qed
  ultimately show ?thesis by blast
qed

text \<open>The heuristic selector on a board on which the AI already has a line.\<close>

lemma heuristic_when_won:
  assumes v: "0 < n" "int (length b) = n * n" "n * n < 2 ^ 63"
    and won: "hasWon b AI_O n"
    and k: "k < length b" "b ! k = EMPTY" "\<forall>j<k. b ! j \<noteq> EMPTY"
  shows "findBestMoveHeuristic shuffle intn b n = Inr (int k)"
proof -
  have ne: "getEmptySpots b \<noteq> []"
    using k(1,2) by (auto simp: getEmptySpots_def filter_empty_conv)
  have "List.find (\<lambda>k. hasWon (b[nat k := AI_O]) AI_O n) (getEmptySpots b) = Some (int k)"
  proof (rule find_first [OF getEmptySpots_sorted])
    show "int k \<in> set (getEmptySpots b)" using k(1,2) by (simp add: getEmptySpots_set)
    show "hasWon (b[nat (int k) := AI_O]) AI_O n" using won by (simp add: hasWon_mono)
    show "\<forall>j\<in>set (getEmptySpots b). j < int k \<longrightarrow> \<not> hasWon (b[nat j := AI_O]) AI_O n"
      using k(3) by (auto simp: getEmptySpots_set)
  qed
  with ne show ?thesis
    by (simp add: findBestMoveHeuristic_def tryMoves_find [OF v] Let_def)
qed

text \<open>The exhaustive selector on a board on which the AI already has a line.\<close>

lemma minimax_when_won:
  assumes p: "wrap64 (- posInf) < 10" and len: "length b = 9" and won: "wins3 b AI_O"
    and k: "k < length b" "b ! k = EMPTY" "\<forall>j<k. b ! j \<noteq> EMPTY"
  shows "findBestMoveMinimax posInf b = Inr (b, int k)"
proof -
  have len9: "9 \<le> length b" using len by simp
  have ten: "moveVal posInf b j = 10" for j
  proof -
    have "wins3 (b[j := AI_O]) AI_O"
      using won hasWon_mono [of b AI_O 3 j] len by (simp add: wins3_hasWon)
    with score_terminal(1) [of "b[j := AI_O]" posInf 0 False] len9 show ?thesis
      by (simp add: moveVal_def wrap64_def)
  qed
  have ke: "k \<in> empties b" using k(1,2) len by (simp add: empties_def)
  with p ten have "\<exists>j\<in>empties b. wrap64 (- posInf) < moveVal posInf b j" by auto
  from findBestMoveMinimax_first_max [OF len9 this] obtain k' where
    k': "k' \<in> empties b" "findBestMoveMinimax posInf b = Inr (b, int k')"
      "\<forall>j\<in>empties b. j < k' \<longrightarrow> moveVal posInf b j < moveVal posInf b k'"
    by blast
  have "\<not> k < k'" using k'(3) ke ten by auto
  moreover have "\<not> k' < k" using k(3) k'(1) by (auto simp: empties_def)
  ultimately have "k' = k" by simp
  with k'(2) show ?thesis by simp
qed

text \<open>
  Claim C9. Take a request that passes the validation, with an N x N board (\<open>0 < N\<close>) on
  which the AI's mark already has a line, the human's mark has none, and some cell is
  empty. The handler does not stop at the AI's line: it calls the selector, which returns
  the first empty cell, places one more mark of the AI there, and only then reports the
  AI as the winner. (On the platforms known, \<open>wrap64 (- posInf)\<close> is far below 10.)
\<close>

theorem C9_handler_moves_after_ai_line:
  assumes "0 < BoardSize st" and "int (length (Board st)) = BoardSize st * BoardSize st"
    and "BoardSize st * BoardSize st < 2 ^ 63"
    and "checkWinner (Board st) AI_O (BoardSize st) = Inr True"
    and "checkWinner (Board st) PLAYER_X (BoardSize st) = Inr False"
    and "\<not> isBoardFull (Board st)"
    and "wrap64 (- posInf) < 10"
  shows "\<exists>k<length (Board st). Board st ! k = EMPTY \<and> (\<forall>j<k. Board st ! j \<noteq> EMPTY) \<and>
     aiMove shuffle intn posInf st = Inr (st\<lparr>Board := (Board st)[k := AI_O]\<rparr>) \<and>
     playHandler shuffle intn posInf POST (Some st) =
       Inr (Encoded (st\<lparr>Board := (Board st)[k := AI_O], Winner := AI_O\<rparr>))"
proof -
  let ?b = "Board st" and ?n = "BoardSize st"
  note v = assms(1-3)
  have cw: "checkWinner b' p ?n = Inr (hasWon b' p ?n)" if "length b' = length ?b" for b' p
    using v that by (intro checkWinner_hasWon) simp_all
  from assms(4,5) have o: "hasWon ?b AI_O ?n" and x: "\<not> hasWon ?b PLAYER_X ?n"
    by (simp_all add: cw)
  from first_empty [OF assms(6)] obtain k where
    k: "k < length ?b" "?b ! k = EMPTY" "\<forall>j<k. ?b ! j \<noteq> EMPTY" by blast
  have sel: "(if ?n = 3 then findBestMoveMinimax posInf ?b
              else (case findBestMoveHeuristic shuffle intn ?b ?n of
                      Inl e \<Rightarrow> Inl e
                    | Inr move \<Rightarrow> Inr (?b, move))) = Inr (?b, int k)"
  proof (cases "?n = 3")
    case True
    with v have len: "length ?b = 9" by simp
    with o True have "wins3 ?b AI_O" by (simp add: wins3_hasWon)
    from minimax_when_won [OF assms(7) len this k] True show ?thesis by simp
  next
    case False
    with heuristic_when_won [OF v o k, of shuffle intn] show ?thesis by simp
  qed
  have m: "aiMove shuffle intn posInf st = Inr (st\<lparr>Board := ?b[k := AI_O]\<rparr>)"
    using k(1,2) by (simp add: aiMove_def sel cellAt_nat)
  have o': "hasWon (?b[k := AI_O]) AI_O ?n" using o by (rule hasWon_mono)
  have "wrap64 (?n * ?n) = ?n * ?n" using v by (simp add: wrap64_id)
  then have "playHandler shuffle intn posInf POST (Some st) =
       Inr (Encoded (st\<lparr>Board := ?b[k := AI_O], Winner := AI_O\<rparr>))"
    using v(1,2) x o' assms(6) by (simp add: playHandler_def cw m)
  with k m show ?thesis by blast
qed

theorem C9_handler_moves_after_ai_line_witness:
  "\<exists>k<length (Board \<lparr>Board = [''O'', ''O'', ''O'', ''X'', ''X'', '''', ''X'', '''', ''''],
                     BoardSize = 3, Winner = ''''\<rparr>).
     Board \<lparr>Board = [''O'', ''O'', ''O'', ''X'', ''X'', '''', ''X'', '''', ''''],
            BoardSize = 3, Winner = ''''\<rparr> ! k = EMPTY \<and>
     (\<forall>j<k. Board \<lparr>Board = [''O'', ''O'', ''O'', ''X'', ''X'', '''', ''X'', '''', ''''],
                   BoardSize = 3, Winner = ''''\<rparr> ! j \<noteq> EMPTY) \<and>
     aiMove (\<lambda>cs. cs) (\<lambda>n. 0) (- (2 ^ 63))
       \<lparr>Board = [''O'', ''O'', ''O'', ''X'', ''X'', '''', ''X'', '''', ''''],
         BoardSize = 3, Winner = ''''\<rparr> =
       Inr (\<lparr>Board = [''O'', ''O'', ''O'', ''X'', ''X'', '''', ''X'', '''', ''''],
              BoardSize = 3, Winner = ''''\<rparr>
            \<lparr>Board := (Board \<lparr>Board = [''O'', ''O'', ''O'', ''X'', ''X'', '''', ''X'', '''', ''''],
                              BoardSize = 3, Winner = ''''\<rparr>)[k := AI_O]\<rparr>) \<and>
     playHandler (\<lambda>cs. cs) (\<lambda>n. 0) (- (2 ^ 63)) POST
       (Some \<lparr>Board = [''O'', ''O'', ''O'', ''X'', ''X'', '''', ''X'', '''', ''''],
              BoardSize = 3, Winner = ''''\<rparr>) =
       Inr (Encoded (\<lparr>Board = [''O'', ''O'', ''O'', ''X'', ''X'', '''', ''X'', '''', ''''],
                       BoardSize = 3, Winner = ''''\<rparr>
            \<lparr>Board := (Board \<lparr>Board = [''O'', ''O'', ''O'', ''X'', ''X'', '''', ''X'', '''', ''''],
                              BoardSize = 3, Winner = ''''\<rparr>)[k := AI_O],
              Winner := AI_O\<rparr>))"
  by (rule C9_handler_moves_after_ai_line)
     (simp_all add: checkWinner_wins3 wins3_def AI_O_def PLAYER_X_def EMPTY_def wrap64_def)

lemma upto_first: "0 < n \<Longrightarrow> [0..n - 1] = 0 # [1..n - 1]"
  by (simp add: upto_rec1)

lemma checkWinner_no_cells:
  "0 < n \<Longrightarrow> checkWinner [] player n = Inl IndexOutOfRange"
  by (simp add: checkWinner_def upto_first cellAt_def)

text \<open>What the validation of the handler lets through.\<close>

lemma playHandler_rejects_iff:
  "playHandler shuffle intn posInf POST (Some st) = Inr StatusBadRequest \<longleftrightarrow>
     BoardSize st = 0 \<or> int (length (Board st)) \<noteq> wrap64 (BoardSize st * BoardSize st)"
  by (auto simp: playHandler_def split: sum.splits)

lemma playHandler_size_zero:
  "BoardSize st = 0 \<Longrightarrow> playHandler shuffle intn posInf POST (Some st) = Inr StatusBadRequest"
  by (simp add: playHandler_def)

text \<open>
  Claim C10 at a failing input. The product \<^verbatim>\<open>BoardSize*BoardSize\<close> is computed in 64 bits:
  for the size \<open>2 ^ 32\<close> it is 0, so the request with that size and an empty board passes
  the validation although its board does not have \<open>2 ^ 64\<close> cells, and the game logic
  runs, into the panic of reading cell 0. The size 0 itself is rejected.
\<close>

theorem C10_wrapped_size_passes_validation:
  "wrap64 (4294967296 * 4294967296) = 0 \<and>
   playHandler shuffle intn posInf POST
     (Some \<lparr>Board = [], BoardSize = 4294967296, Winner = ''''\<rparr>) = Inl IndexOutOfRange \<and>
   playHandler shuffle intn posInf POST
     (Some \<lparr>Board = [], BoardSize = 0, Winner = ''''\<rparr>) = Inr StatusBadRequest"
proof -
  have w: "wrap64 (4294967296 * 4294967296) = 0" by (simp add: wrap64_def)
  have c: "checkWinner [] PLAYER_X 4294967296 = Inl IndexOutOfRange"
    by (rule checkWinner_no_cells) simp
  have "playHandler shuffle intn posInf POST
     (Some \<lparr>Board = [], BoardSize = 4294967296, Winner = ''''\<rparr>) = Inl IndexOutOfRange"
    using w c by (simp add: playHandler_def)
  with w show ?thesis by (simp add: playHandler_size_zero)
qed

end
